theory Spec2Isabelle
  imports Main "HOL-Library.Word" "HOL-Library.Multiset"
begin

section \<open>JavaScript strings\<close>

text \<open>
  A JavaScript string is a sequence of UTF-16 code units. The literals of the script are
  ASCII, so each of their characters is one code unit; \<open>utf16\<close> writes such a literal.
\<close>

type_synonym code_unit = "16 word"
type_synonym js_string = "code_unit list"

definition utf16 :: "string \<Rightarrow> js_string" where
  "utf16 s = map (\<lambda>c. of_nat (of_char c)) s"

text \<open>
  \<^verbatim>\<open>String.prototype.trim\<close> removes, at both ends, the code points of the ECMAScript
  productions WhiteSpace (TAB, VT, FF, ZWNBSP and the Unicode category Zs) and
  LineTerminator (LF, CR, LS, PS). All of them lie in the Basic Multilingual Plane, so
  the test is one on code units.
\<close>

definition is_white_space :: "code_unit \<Rightarrow> bool" where
  "is_white_space c =
     (c = 0x9 \<or> c = 0xA \<or> c = 0xB \<or> c = 0xC \<or> c = 0xD \<or> c = 0x20 \<or> c = 0xA0
      \<or> c = 0x1680 \<or> (0x2000 \<le> c \<and> c \<le> 0x200A) \<or> c = 0x2028 \<or> c = 0x2029
      \<or> c = 0x202F \<or> c = 0x205F \<or> c = 0x3000 \<or> c = 0xFEFF)"

definition trim :: "js_string \<Rightarrow> js_string" where
  "trim s = rev (dropWhile is_white_space (rev (dropWhile is_white_space s)))"

section \<open>The document tree\<close>

text \<open>
  The script reads and writes the host's document through three operations:
  \<^verbatim>\<open>document.querySelectorAll\<close>, the getter of \<^verbatim>\<open>textContent\<close> and its setter. A node
  is an element (with the identity of the object, its local name, the tokens of its
  class attribute and its child nodes), a text node or a comment. The identity is what a
  JavaScript reference to the element denotes: the node list returned by
  \<^verbatim>\<open>querySelectorAll\<close> is static and holds references, which stay valid when an element
  is removed from the document.
\<close>

type_synonym ref = nat

datatype node =
    Element ref js_string "js_string list" "node list"
  | Text js_string
  | Comment js_string

fun node_ref :: "node \<Rightarrow> ref option" where
  "node_ref (Element r t cs ch) = Some r"
| "node_ref (Text s) = None"
| "node_ref (Comment s) = None"

fun child_nodes :: "node \<Rightarrow> node list" where
  "child_nodes (Element r t cs ch) = ch"
| "child_nodes (Text s) = []"
| "child_nodes (Comment s) = []"

text \<open>The elements of a subtree in tree order (preorder), the root included.\<close>

fun elements :: "node \<Rightarrow> node list" where
  "elements (Element r t cs ch) = Element r t cs ch # concat (map elements ch)"
| "elements (Text s) = []"
| "elements (Comment s) = []"

definition all_elements :: "node list \<Rightarrow> node list" where
  "all_elements ns = concat (map elements ns)"

text \<open>
  The getter of \<^verbatim>\<open>textContent\<close> on an element returns its descendant text content: the
  concatenation of the data of all text node descendants, in tree order. Comments do not
  contribute.
\<close>

fun descendant_text :: "node \<Rightarrow> js_string" where
  "descendant_text (Element r t cs ch) = concat (map descendant_text ch)"
| "descendant_text (Text s) = s"
| "descendant_text (Comment s) = []"

text \<open>
  The setter of \<^verbatim>\<open>textContent\<close> on an element replaces all its children: by nothing when
  the string is empty, by a single text node otherwise. \<open>replace_all r new\<close> does so at
  the element \<open>r\<close> of a subtree.
\<close>

fun replace_all :: "ref \<Rightarrow> node list \<Rightarrow> node \<Rightarrow> node" where
  "replace_all r new (Element i t cs ch) =
     (if i = r then Element i t cs new else Element i t cs (map (replace_all r new) ch))"
| "replace_all r new (Text s) = Text s"
| "replace_all r new (Comment s) = Comment s"

text \<open>
  A selector of the form \<^verbatim>\<open>type.class\<close>: an element matches when its local name is the
  type and the class is among the tokens of its class attribute (a document in no-quirks
  mode: class names are compared case-sensitively).
\<close>

datatype selector = TypeAndClass js_string js_string

fun matches :: "selector \<Rightarrow> node \<Rightarrow> bool" where
  "matches (TypeAndClass t c) (Element r tag cs ch) = (tag = t \<and> c \<in> set cs)"
| "matches sel (Text s) = False"
| "matches sel (Comment s) = False"

text \<open>
  The state of the host's node store: the children of the document node, and the trees
  that are not in the document (a removed node is the root of a tree of its own).
\<close>

record dom =
  document :: "node list"
  detached :: "node list"

abbreviation store :: "dom \<Rightarrow> node list" where
  "store d \<equiv> document d @ detached d"

definition find_element :: "ref \<Rightarrow> node list \<Rightarrow> node option" where
  "find_element r ns = find (\<lambda>n. node_ref n = Some r) (all_elements ns)"

text \<open>Every element is one object: no two elements of the store have the same identity.\<close>

definition well_formed :: "dom \<Rightarrow> bool" where
  "well_formed d = distinct (map node_ref (all_elements (store d)))"

section \<open>The rewrite pass\<close>

datatype js_error = TypeError | SyntaxError | OtherError

text \<open>
  What the script asks of its host. Each operation either returns or throws; a node list
  entry and a text content may be \<^verbatim>\<open>null\<close> or \<^verbatim>\<open>undefined\<close> (\<open>None\<close>).
\<close>

record 'd host =
  querySelectorAll :: "'d \<Rightarrow> selector \<Rightarrow> js_error + ref option list"
  get_textContent :: "'d \<Rightarrow> ref \<Rightarrow> js_error + js_string option"
  set_textContent :: "'d \<Rightarrow> ref \<Rightarrow> js_string \<Rightarrow> js_error + 'd"

datatype console_arg = Str js_string | Num nat | Err js_error

datatype console_record = ConsoleLog "console_arg list" | ConsoleError "console_arg list"

type_synonym console = "console_record list"

text \<open>
  A statement completes normally or throws; in both cases the state reached so far
  remains.
\<close>

datatype 's completion = Normal 's | Throw js_error 's

definition heading_selector :: selector where
  "heading_selector = TypeAndClass (utf16 ''h4'') (utf16 ''api-section-heading-title'')"

definition target_text :: js_string where
  "target_text = utf16 ''Query Parameters''"

definition replacement_text :: js_string where
  "replacement_text = utf16 ''Parameters''"

text \<open>
  The callback of \<^verbatim>\<open>forEach\<close>:
  \<^verbatim>\<open>if (heading && heading.textContent && heading.textContent.trim() === 'Query Parameters')
    { heading.textContent = 'Parameters'; replaced++; }\<close>
  The property is read twice, as in the source; calling \<^verbatim>\<open>trim\<close> on \<^verbatim>\<open>null\<close> would be a
  TypeError. The counter is a JavaScript number, exact for every count of elements.
\<close>

fun heading_callback :: "'d host \<Rightarrow> ref option \<Rightarrow> 'd \<times> nat \<Rightarrow> ('d \<times> nat) completion" where
  "heading_callback h None (d, replaced) = Normal (d, replaced)"
| "heading_callback h (Some r) (d, replaced) =
     (case get_textContent h d r of
        Inl e \<Rightarrow> Throw e (d, replaced)
      | Inr None \<Rightarrow> Normal (d, replaced)
      | Inr (Some t) \<Rightarrow>
          if t = [] then Normal (d, replaced)
          else (case get_textContent h d r of
                  Inl e \<Rightarrow> Throw e (d, replaced)
                | Inr None \<Rightarrow> Throw TypeError (d, replaced)
                | Inr (Some t') \<Rightarrow>
                    if trim t' = target_text
                    then (case set_textContent h d r replacement_text of
                            Inl e \<Rightarrow> Throw e (d, replaced)
                          | Inr d' \<Rightarrow> Normal (d', replaced + 1))
                    else Normal (d, replaced)))"

fun forEach :: "('a \<Rightarrow> 's \<Rightarrow> 's completion) \<Rightarrow> 'a list \<Rightarrow> 's \<Rightarrow> 's completion" where
  "forEach f [] s = Normal s"
| "forEach f (x # xs) s =
     (case f x s of Normal s' \<Rightarrow> forEach f xs s' | Throw e s' \<Rightarrow> Throw e s')"

text \<open>
  The two records the pass writes:
  \<^verbatim>\<open>console.log('Replaced', replaced, 'Query Parameters headings')\<close> and
  \<^verbatim>\<open>console.error('Error replacing Query Parameters:', e)\<close>.
\<close>

definition count_record :: "nat \<Rightarrow> console_record" where
  "count_record replaced =
     ConsoleLog [Str (utf16 ''Replaced''), Num replaced, Str (utf16 ''Query Parameters headings'')]"

definition error_record :: "js_error \<Rightarrow> console_record" where
  "error_record e = ConsoleError [Str (utf16 ''Error replacing Query Parameters:''), Err e]"

text \<open>The body of the \<^verbatim>\<open>try\<close> block.\<close>

definition try_block :: "'d host \<Rightarrow> 'd \<times> console \<Rightarrow> ('d \<times> console) completion" where
  "try_block h s =
     (case s of (d, con) \<Rightarrow>
        (case querySelectorAll h d heading_selector of
           Inl e \<Rightarrow> Throw e (d, con)
         | Inr headings \<Rightarrow>
             (case forEach (heading_callback h) headings (d, 0) of
                Throw e (d', replaced) \<Rightarrow> Throw e (d', con)
              | Normal (d', replaced) \<Rightarrow> Normal (d', con @ [count_record replaced]))))"

text \<open>The function: the \<^verbatim>\<open>try\<close> block and its \<^verbatim>\<open>catch\<close> clause.\<close>

definition replaceQueryParameters :: "'d host \<Rightarrow> 'd \<times> console \<Rightarrow> ('d \<times> console) completion" where
  "replaceQueryParameters h s =
     (case try_block h s of
        Normal s' \<Rightarrow> Normal s'
      | Throw e (d', con') \<Rightarrow> Normal (d', con' @ [error_record e]))"

section \<open>The host's document operations\<close>

text \<open>
  \<^verbatim>\<open>document.querySelectorAll\<close> returns the elements of the document that match, in tree
  order. A reference that denotes no element has no text content, and assigning to a
  property of it is a TypeError; a reference taken from a node list always denotes one.
  The setter removes the old children from their parent: they become detached trees.
\<close>

definition dom_querySelectorAll :: "dom \<Rightarrow> selector \<Rightarrow> js_error + ref option list" where
  "dom_querySelectorAll d sel = Inr (map node_ref (filter (matches sel) (all_elements (document d))))"

definition dom_get_textContent :: "dom \<Rightarrow> ref \<Rightarrow> js_error + js_string option" where
  "dom_get_textContent d r =
     Inr (case find_element r (store d) of
            None \<Rightarrow> None
          | Some n \<Rightarrow> Some (descendant_text n))"

definition text_nodes :: "js_string \<Rightarrow> node list" where
  "text_nodes v = (if v = [] then [] else [Text v])"

definition dom_set_textContent :: "dom \<Rightarrow> ref \<Rightarrow> js_string \<Rightarrow> js_error + dom" where
  "dom_set_textContent d r v =
     (case find_element r (store d) of
        None \<Rightarrow> Inl TypeError
      | Some n \<Rightarrow>
          Inr (d\<lparr>document := map (replace_all r (text_nodes v)) (document d),
                 detached := map (replace_all r (text_nodes v)) (detached d) @ child_nodes n\<rparr>))"

definition dom_host :: "dom host" where
  "dom_host = \<lparr>querySelectorAll = dom_querySelectorAll,
               get_textContent = dom_get_textContent,
               set_textContent = dom_set_textContent\<rparr>"


section \<open>Degenerate node list entries\<close>

text \<open>
  An entry of the node list is degenerate when it is \<^verbatim>\<open>null\<close> or \<^verbatim>\<open>undefined\<close>, or when
  its text content is \<^verbatim>\<open>null\<close>, \<^verbatim>\<open>undefined\<close> or the empty string.
\<close>

fun degenerate :: "'d host \<Rightarrow> 'd \<Rightarrow> ref option \<Rightarrow> bool" where
  "degenerate h d None = True"
| "degenerate h d (Some r) =
     (get_textContent h d r = Inr None \<or> get_textContent h d r = Inr (Some []))"

section \<open>The page and the scheduling of the pass\<close>

text \<open>
  What the script's top level reads and registers: the document's \<^verbatim>\<open>readyState\<close>, whether
  \<^verbatim>\<open>MutationObserver\<close> is defined, the console, the event listeners, the pending one-shot
  timers (callback and delay in milliseconds) and the nodes observed by the script's
  mutation observer (target, \<^verbatim>\<open>childList\<close>, \<^verbatim>\<open>subtree\<close>). The script has three
  callbacks: the function \<^verbatim>\<open>replaceQueryParameters\<close> itself, the observer's callback and the
  delayed check for the body.
\<close>

datatype ready_state = Loading | Interactive | Complete

datatype event_target = DocumentTarget | WindowTarget

datatype callback = ReplaceQueryParameters | ObserverCallback | BodyCheck

record page =
  page_dom :: dom
  readyState :: ready_state
  mutation_observer_defined :: bool
  console_output :: console
  listeners :: "(event_target \<times> js_string \<times> callback) list"
  timers :: "(callback \<times> nat) list"
  observed :: "(ref \<times> bool \<times> bool) list"

text \<open>
  \<^verbatim>\<open>document.body\<close>: the first child of the \<^verbatim>\<open>html\<close> document element that is a
  \<^verbatim>\<open>body\<close> or a \<^verbatim>\<open>frameset\<close> element, or \<^verbatim>\<open>null\<close>.
\<close>

fun is_element :: "node \<Rightarrow> bool" where
  "is_element (Element r t cs ch) = True"
| "is_element (Text s) = False"
| "is_element (Comment s) = False"

fun is_body_or_frameset :: "node \<Rightarrow> bool" where
  "is_body_or_frameset (Element r t cs ch) = (t = utf16 ''body'' \<or> t = utf16 ''frameset'')"
| "is_body_or_frameset (Text s) = False"
| "is_body_or_frameset (Comment s) = False"

fun body_of_html :: "node \<Rightarrow> ref option" where
  "body_of_html (Element r t cs ch) =
     (if t = utf16 ''html'' then Option.bind (find is_body_or_frameset ch) node_ref else None)"
| "body_of_html (Text s) = None"
| "body_of_html (Comment s) = None"

definition document_body :: "dom \<Rightarrow> ref option" where
  "document_body d = Option.bind (find is_element (document d)) body_of_html"

text \<open>
  The host's registration calls. The listener and the timer callbacks are function objects
  of this script, so a registration is never a duplicate of an earlier one.
\<close>

definition addEventListener :: "event_target \<Rightarrow> js_string \<Rightarrow> callback \<Rightarrow> page \<Rightarrow> page" where
  "addEventListener tgt ty cb p = p\<lparr>listeners := listeners p @ [(tgt, ty, cb)]\<rparr>"

definition setTimeout :: "callback \<Rightarrow> nat \<Rightarrow> page \<Rightarrow> page" where
  "setTimeout cb delay p = p\<lparr>timers := timers p @ [(cb, delay)]\<rparr>"

definition observe :: "ref \<Rightarrow> bool \<Rightarrow> bool \<Rightarrow> page \<Rightarrow> page" where
  "observe tgt child_list subtree p = p\<lparr>observed := observed p @ [(tgt, child_list, subtree)]\<rparr>"

text \<open>A call of \<^verbatim>\<open>replaceQueryParameters()\<close> on the page's document and console.\<close>

definition call_replaceQueryParameters :: "page \<Rightarrow> page completion" where
  "call_replaceQueryParameters p =
     (case replaceQueryParameters dom_host (page_dom p, console_output p) of
        Normal (d', con') \<Rightarrow> Normal (p\<lparr>page_dom := d', console_output := con'\<rparr>)
      | Throw e (d', con') \<Rightarrow> Throw e (p\<lparr>page_dom := d', console_output := con'\<rparr>))"

fun run_callback :: "callback \<Rightarrow> page \<Rightarrow> page completion" where
  "run_callback ReplaceQueryParameters p = call_replaceQueryParameters p"
| "run_callback ObserverCallback p = call_replaceQueryParameters p"
| "run_callback BodyCheck p =
     (case document_body (page_dom p) of
        Some b \<Rightarrow> Normal (observe b True True p)
      | None \<Rightarrow> Normal p)"

text \<open>The top level of the script, in the order of the source.\<close>

definition script :: "page \<Rightarrow> page completion" where
  "script p =
     (case (if readyState p = Loading
            then Normal (addEventListener DocumentTarget (utf16 ''DOMContentLoaded'')
                           ReplaceQueryParameters p)
            else call_replaceQueryParameters p) of
        Throw e p' \<Rightarrow> Throw e p'
      | Normal p1 \<Rightarrow>
          (let p2 = addEventListener WindowTarget (utf16 ''load'') ReplaceQueryParameters p1;
               p3 = setTimeout ReplaceQueryParameters 100 p2;
               p4 = setTimeout ReplaceQueryParameters 300 p3;
               p5 = setTimeout ReplaceQueryParameters 500 p4;
               p6 = setTimeout ReplaceQueryParameters 1000 p5;
               p7 = setTimeout ReplaceQueryParameters 2000 p6
           in if mutation_observer_defined p7
              then (case document_body (page_dom p7) of
                      Some b \<Rightarrow> Normal (observe b True True p7)
                    | None \<Rightarrow> Normal (setTimeout BodyCheck 100 p7))
              else Normal p7))"

text \<open>
  The host's event loop runs one task at a time. A timer set by \<^verbatim>\<open>setTimeout\<close> is removed
  when it fires; an event is dispatched to the listeners registered for it, in order; a
  batch of mutation records is delivered to the observer's callback when the observer
  observes a node. An exception that escapes a task is reported by the host and the page
  lives on.
\<close>

fun settle :: "page completion \<Rightarrow> page" where
  "settle (Normal p) = p"
| "settle (Throw e p) = p"

definition fire_timer :: "nat \<Rightarrow> page \<Rightarrow> page" where
  "fire_timer i p =
     (if i < length (timers p)
      then settle (run_callback (fst (timers p ! i))
                     (p\<lparr>timers := take i (timers p) @ drop (Suc i) (timers p)\<rparr>))
      else p)"

definition dispatch_event :: "event_target \<Rightarrow> js_string \<Rightarrow> page \<Rightarrow> page" where
  "dispatch_event tgt ty p =
     fold (\<lambda>l q. if fst l = tgt \<and> fst (snd l) = ty then settle (run_callback (snd (snd l)) q) else q)
       (listeners p) p"

definition deliver_mutations :: "page \<Rightarrow> page" where
  "deliver_mutations p = (if observed p = [] then p else settle (run_callback ObserverCallback p))"

section \<open>What a pass leaves behind\<close>

text \<open>
  The notions the properties of the pass are stated with. An element \<open>has_target_text\<close>
  when the guard of the callback holds for it; \<open>selected d\<close> are the elements
  \<^verbatim>\<open>querySelectorAll\<close> returns on \<open>d\<close>; \<open>set_replacement r n d\<close> is the store after the
  assignment \<^verbatim>\<open>heading.textContent = 'Parameters'\<close> to the element \<open>n\<close> of identity \<open>r\<close>;
  \<open>rewrite S\<close> replaces the children of the elements whose identity is in \<open>S\<close> by the
  single text node \<^verbatim>\<open>Parameters\<close> and keeps every other node as it is: its kind, name and
  classes, and its children in their order; \<open>removed r n\<close> are the children that
  \<open>replace_all r\<close> takes out of \<open>n\<close>. Headings are not nested when no selected heading
  has a selected heading among its descendants.
\<close>

definition has_target_text :: "node \<Rightarrow> bool" where
  "has_target_text n = (trim (descendant_text n) = target_text)"

definition selected :: "dom \<Rightarrow> node list" where
  "selected d = filter (matches heading_selector) (all_elements (document d))"

definition set_replacement :: "ref \<Rightarrow> node \<Rightarrow> dom \<Rightarrow> dom" where
  "set_replacement r n d =
     d\<lparr>document := map (replace_all r [Text replacement_text]) (document d),
       detached := map (replace_all r [Text replacement_text]) (detached d) @ child_nodes n\<rparr>"

definition replaced_refs :: "node list \<Rightarrow> ref set" where
  "replaced_refs ns = {r. \<exists>n \<in> set ns. has_target_text n \<and> node_ref n = Some r}"

fun rewrite :: "ref set \<Rightarrow> node \<Rightarrow> node" where
  "rewrite S (Element i t cs ch) =
     (if i \<in> S then Element i t cs [Text replacement_text] else Element i t cs (map (rewrite S) ch))"
| "rewrite S (Text s) = Text s"
| "rewrite S (Comment s) = Comment s"

fun removed :: "ref \<Rightarrow> node \<Rightarrow> node list" where
  "removed r (Element i t cs ch) = (if i = r then ch else concat (map (removed r) ch))"
| "removed r (Text s) = []"
| "removed r (Comment s) = []"

abbreviation outside :: "node \<Rightarrow> node \<Rightarrow> bool" where
  "outside a b \<equiv> node_ref a \<notin> set (map node_ref (elements b))"

definition headings_not_nested :: "node list \<Rightarrow> bool" where
  "headings_not_nested ns =
     (\<forall>e \<in> set (all_elements ns). matches heading_selector e \<longrightarrow>
        (\<forall>e' \<in> set (all_elements (child_nodes e)). \<not> matches heading_selector e'))"


section \<open>Example documents, hosts and pages\<close>

definition section_heading :: "ref \<Rightarrow> string \<Rightarrow> node" where
  "section_heading r s =
     Element r (utf16 ''h4'') [utf16 ''api-section-heading-title''] [Text (utf16 s)]"

definition scenario_document :: dom where
  "scenario_document =
     \<lparr>document =
        [Element 0 (utf16 ''html'') []
          [Element 1 (utf16 ''body'') []
            [section_heading 2 ''Query Parameters'',
             section_heading 3 ''Responses'',
             section_heading 4 ''Query Parameters'']]],
      detached = []\<rparr>"

definition empty_heading_document :: dom where
  "empty_heading_document =
     \<lparr>document = [Element 0 (utf16 ''h4'') [utf16 ''api-section-heading-title''] []],
      detached = []\<rparr>"

definition nested_document :: dom where
  "nested_document =
     \<lparr>document =
        [Element 0 (utf16 ''html'') []
          [Element 1 (utf16 ''body'') []
            [Element 2 (utf16 ''h4'') [utf16 ''api-section-heading-title'']
              [Text (utf16 ''Query ''), section_heading 3 ''Query Parameters'']]]],
      detached = []\<rparr>"

definition nested_document_after :: dom where
  "nested_document_after =
     \<lparr>document =
        [Element 0 (utf16 ''html'') []
          [Element 1 (utf16 ''body'') []
            [Element 2 (utf16 ''h4'') [utf16 ''api-section-heading-title'']
              [Text (utf16 ''Query ''), section_heading 3 ''Parameters'']]]],
      detached = [Text (utf16 ''Query Parameters'')]\<rparr>"

definition nested_document_twice :: dom where
  "nested_document_twice =
     \<lparr>document =
        [Element 0 (utf16 ''html'') []
          [Element 1 (utf16 ''body'') []
            [section_heading 2 ''Parameters'']]],
      detached = [Text (utf16 ''Query Parameters''), Text (utf16 ''Query ''),
                  section_heading 3 ''Parameters'']\<rparr>"

definition frame_document :: dom where
  "frame_document =
     \<lparr>document =
        [Element 0 (utf16 ''html'') []
          [Element 1 (utf16 ''body'') []
            [Element 2 (utf16 ''h3'') [utf16 ''api-section-heading-title'']
               [Text (utf16 ''Query Parameters'')],
             Element 3 (utf16 ''h4'') [utf16 ''section-title''] [Text (utf16 ''Query Parameters'')],
             section_heading 4 ''Query Parameters'',
             section_heading 5 ''Query Parameters List'']]],
      detached = []\<rparr>"

definition trailing_space_document :: dom where
  "trailing_space_document =
     \<lparr>document =
        [Element 0 (utf16 ''html'') []
          [Element 1 (utf16 ''body'') []
            [section_heading 2 ''Query Parameters '',
             section_heading 3 ''Query Parameters List'']]],
      detached = []\<rparr>"

definition selection_failing_host :: "dom host" where
  "selection_failing_host = dom_host\<lparr>querySelectorAll := \<lambda>d sel. Inl SyntaxError\<rparr>"

definition read_only_host :: "dom host" where
  "read_only_host = dom_host\<lparr>set_textContent := \<lambda>d r v. Inl TypeError\<rparr>"

definition loading_page :: page where
  "loading_page =
     \<lparr>page_dom = \<lparr>document = [], detached = []\<rparr>, readyState = Loading,
      mutation_observer_defined = True, console_output = [], listeners = [], timers = [],
      observed = []\<rparr>"

definition complete_page :: page where
  "complete_page =
     \<lparr>page_dom = scenario_document, readyState = Complete,
      mutation_observer_defined = True, console_output = [], listeners = [], timers = [],
      observed = []\<rparr>"

definition scheduled :: "page \<Rightarrow> page" where
  "scheduled p1 =
     p1\<lparr>listeners := listeners p1 @ [(WindowTarget, utf16 ''load'', ReplaceQueryParameters)],
        timers := timers p1 @
          [(ReplaceQueryParameters, 100), (ReplaceQueryParameters, 300),
           (ReplaceQueryParameters, 500), (ReplaceQueryParameters, 1000),
           (ReplaceQueryParameters, 2000)] @
          (if mutation_observer_defined p1 \<and> document_body (page_dom p1) = None
           then [(BodyCheck, 100)] else []),
        observed := observed p1 @
          (if mutation_observer_defined p1
           then (case document_body (page_dom p1) of Some b \<Rightarrow> [(b, True, True)] | None \<Rightarrow> [])
           else [])\<rparr>"

section \<open>Facts about the pass on any host\<close>

lemma trim_Nil [simp]: "trim [] = []"
  by (simp add: trim_def)

lemma target_text_not_Nil [simp]: "target_text \<noteq> []"
  by (simp add: target_text_def utf16_def)

lemma replacement_text_not_Nil [simp]: "replacement_text \<noteq> []"
  by (simp add: replacement_text_def utf16_def)

lemma heading_callback_throws_on_setter:
  assumes "get_textContent h d r = Inr (Some t)" and "trim t = target_text"
    and "set_textContent h d r replacement_text = Inl e"
  shows "heading_callback h (Some r) (d, replaced) = Throw e (d, replaced)"
proof -
  have "t \<noteq> []"
  proof
    assume "t = []"
    with assms(2) have "target_text = []" by simp
    then show False by simp
  qed
  with assms show ?thesis by simp
qed

lemma forEach_append:
  "forEach f (xs @ ys) s =
     (case forEach f xs s of Normal s' \<Rightarrow> forEach f ys s' | Throw e s' \<Rightarrow> Throw e s')"
  by (induction xs arbitrary: s) (auto split: completion.splits)

text \<open>
  C9. A degenerate entry of the node list is skipped by the guard: the callback completes
  normally (no exception), with the document and the replacement counter as they were, so
  the iteration over a list that starts with such an entry continues as if it were absent.
\<close>

theorem degenerate_heading_skipped:
  assumes "degenerate h d x"
  shows "heading_callback h x (d, replaced) = Normal (d, replaced)
       \<and> forEach (heading_callback h) (x # xs) (d, replaced)
           = forEach (heading_callback h) xs (d, replaced)"
proof -
  have "heading_callback h x (d, replaced) = Normal (d, replaced)"
  proof (cases x)
    case None
    then show ?thesis by simp
  next
    case (Some r)
    with assms have "get_textContent h d r = Inr None \<or> get_textContent h d r = Inr (Some [])"
      by simp
    with Some show ?thesis by auto
  qed
  then show ?thesis by simp
qed

lemma empty_heading_degenerate: "degenerate dom_host empty_heading_document (Some 0)"
  by (simp add: dom_host_def dom_get_textContent_def empty_heading_document_def
      find_element_def all_elements_def)

theorem degenerate_heading_skipped_witness:
  "degenerate dom_host empty_heading_document (Some 0)
   \<and> heading_callback dom_host (Some 0) (empty_heading_document, 0)
       = Normal (empty_heading_document, 0)
   \<and> forEach (heading_callback dom_host) [Some 0, None] (empty_heading_document, 0)
       = forEach (heading_callback dom_host) [None] (empty_heading_document, 0)"
  using degenerate_heading_skipped[OF empty_heading_degenerate, of 0 "[None]"]
    empty_heading_degenerate by simp

lemmas evaluate_pass =
  replaceQueryParameters_def try_block_def count_record_def error_record_def dom_host_def dom_querySelectorAll_def
  dom_get_textContent_def dom_set_textContent_def all_elements_def find_element_def
  heading_selector_def target_text_def replacement_text_def utf16_def trim_def
  is_white_space_def text_nodes_def

section \<open>The document tree under the setter\<close>

lemma all_elements_simps [simp]:
  "all_elements [] = []"
  "all_elements (n # ns) = elements n @ all_elements ns"
  "all_elements (ns @ ms) = all_elements ns @ all_elements ms"
  by (simp_all add: all_elements_def)

lemma node_ref_replace_all [simp]: "node_ref (replace_all r new t) = node_ref t"
  by (cases t) simp_all

lemma replace_all_absent:
  "Some r \<notin> set (map node_ref (elements t)) \<Longrightarrow> replace_all r new t = t"
proof (induction t)
  case (Element i tg cs ch)
  have "map (replace_all r new) ch = ch"
  proof (rule map_idI)
    fix c assume c: "c \<in> set ch"
    with Element.prems have "Some r \<notin> set (map node_ref (elements c))" by auto
    with Element.IH c show "replace_all r new c = c" by blast
  qed
  with Element.prems show ?case by auto
qed simp_all

lemma removed_absent:
  "Some r \<notin> set (map node_ref (elements t)) \<Longrightarrow> removed r t = []"
proof (induction t)
  case (Element i tg cs ch)
  have "\<forall>c \<in> set ch. removed r c = []"
  proof
    fix c assume c: "c \<in> set ch"
    with Element.prems have "Some r \<notin> set (map node_ref (elements c))" by auto
    with Element.IH c show "removed r c = []" by blast
  qed
  with Element.prems show ?case by auto
qed simp_all

lemma elements_trans:
  "e \<in> set (elements t) \<Longrightarrow> set (elements e) \<subseteq> set (elements t)"
proof (induction t)
  case (Element i tg cs ch)
  show ?case
  proof (cases "e = Element i tg cs ch")
    case True then show ?thesis by simp
  next
    case False
    with Element.prems obtain c where c: "c \<in> set ch" "e \<in> set (elements c)" by auto
    with Element.IH have "set (elements e) \<subseteq> set (elements c)" by blast
    with c show ?thesis by auto
  qed
qed simp_all

lemma elements_self: "node_ref t \<noteq> None \<Longrightarrow> t \<in> set (elements t)"
  by (cases t) simp_all

lemma elements_are_elements: "e \<in> set (elements t) \<Longrightarrow> node_ref e \<noteq> None"
proof (induction t)
  case (Element i tg cs ch)
  then show ?case by auto
qed simp_all

lemma mset_forest:
  assumes "\<And>c. c \<in> set ch \<Longrightarrow>
     mset (map node_ref (elements (replace_all r new c))) + mset (map node_ref (all_elements (removed r c)))
       = mset (map node_ref (elements c))"
  shows "mset (map node_ref (all_elements (map (replace_all r new) ch)))
       + mset (map node_ref (all_elements (concat (map (removed r) ch))))
       = mset (map node_ref (all_elements ch))"
  using assms
proof (induction ch)
  case Nil then show ?case by simp
next
  case (Cons c ch)
  have a: "mset (map node_ref (elements (replace_all r new c))) + mset (map node_ref (all_elements (removed r c)))
       = mset (map node_ref (elements c))" using Cons.prems by simp
  have b: "mset (map node_ref (all_elements (map (replace_all r new) ch)))
       + mset (map node_ref (all_elements (concat (map (removed r) ch))))
       = mset (map node_ref (all_elements ch))" using Cons by simp
  show ?case using a b by (simp add: ac_simps)
qed

lemma mset_replace_all:
  assumes "all_elements new = []"
  shows "mset (map node_ref (elements (replace_all r new t))) + mset (map node_ref (all_elements (removed r t)))
       = mset (map node_ref (elements t))"
proof (induction t)
  case (Element i tg cs ch)
  show ?case
  proof (cases "i = r")
    case True
    with assms show ?thesis by (simp add: all_elements_def)
  next
    case False
    have "mset (map node_ref (all_elements (map (replace_all r new) ch)))
       + mset (map node_ref (all_elements (concat (map (removed r) ch))))
       = mset (map node_ref (all_elements ch))"
      by (rule mset_forest) (use Element.IH in blast)
    with False show ?thesis by (simp add: all_elements_def)
  qed
qed simp_all

lemma find_distinct:
  "distinct (map f xs) \<Longrightarrow> x \<in> set xs \<Longrightarrow> f x = k \<Longrightarrow> find (\<lambda>y. f y = k) xs = Some x"
  by (induction xs) (auto simp: image_iff)

lemma find_append_eq:
  "find P (xs @ ys) = (case find P xs of None \<Rightarrow> find P ys | Some x \<Rightarrow> Some x)"
  by (induction xs) auto

lemma find_elementI:
  "distinct (map node_ref (all_elements ns)) \<Longrightarrow> n \<in> set (all_elements ns) \<Longrightarrow> node_ref n = Some r
     \<Longrightarrow> find_element r ns = Some n"
  unfolding find_element_def by (rule find_distinct)

lemma find_elementD:
  "find_element r ns = Some n \<Longrightarrow> n \<in> set (all_elements ns) \<and> node_ref n = Some r"
  unfolding find_element_def by (auto simp: find_Some_iff)

lemma find_element_None:
  "find_element r ns = None \<longleftrightarrow> Some r \<notin> set (map node_ref (all_elements ns))"
  unfolding find_element_def by (auto simp: find_None_iff image_iff)

lemma removed_forest:
  assumes "\<And>c n. c \<in> set ch \<Longrightarrow> distinct (map node_ref (elements c)) \<Longrightarrow>
              find (\<lambda>x. node_ref x = Some r) (elements c) = Some n \<Longrightarrow> removed r c = child_nodes n"
    and "distinct (map node_ref (all_elements ch))"
    and "find (\<lambda>x. node_ref x = Some r) (all_elements ch) = Some n"
  shows "concat (map (removed r) ch) = child_nodes n"
  using assms
proof (induction ch)
  case Nil then show ?case by simp
next
  case (Cons c ch)
  show ?case
  proof (cases "find (\<lambda>x. node_ref x = Some r) (elements c)")
    case None
    then have "Some r \<notin> set (map node_ref (elements c))" by (auto simp: find_None_iff image_iff)
    then have c: "removed r c = []" by (rule removed_absent)
    from None Cons.prems(3) have "find (\<lambda>x. node_ref x = Some r) (all_elements ch) = Some n"
      by (simp add: find_append_eq)
    moreover from Cons.prems(2) have "distinct (map node_ref (all_elements ch))" by simp
    ultimately have "concat (map (removed r) ch) = child_nodes n"
      using Cons.IH Cons.prems(1) by simp
    with c show ?thesis by simp
  next
    case (Some m)
    with Cons.prems(3) have mn: "m = n" by (simp add: find_append_eq)
    from Cons.prems(2) have dc: "distinct (map node_ref (elements c))" by simp
    from Some mn dc Cons.prems(1) have c: "removed r c = child_nodes n" by simp
    from Some have "Some r \<in> set (map node_ref (elements c))"
      by (auto simp: find_Some_iff image_iff) (metis nth_mem)
    with Cons.prems(2) have "Some r \<notin> set (map node_ref (all_elements ch))" by auto
    then have "\<forall>c' \<in> set ch. Some r \<notin> set (map node_ref (elements c'))"
      by (auto simp: all_elements_def)
    then have "\<forall>c' \<in> set ch. removed r c' = []" by (simp add: removed_absent)
    then have "concat (map (removed r) ch) = []" by simp
    with c show ?thesis by simp
  qed
qed

lemma removed_found:
  "distinct (map node_ref (elements t)) \<Longrightarrow>
   find (\<lambda>x. node_ref x = Some r) (elements t) = Some n \<Longrightarrow> removed r t = child_nodes n"
proof (induction t arbitrary: n)
  case (Element i tg cs ch)
  show ?case
  proof (cases "i = r")
    case True
    with Element.prems show ?thesis by auto
  next
    case False
    with Element.prems have f: "find (\<lambda>x. node_ref x = Some r) (all_elements ch) = Some n"
      by (simp add: all_elements_def)
    from Element.prems have d: "distinct (map node_ref (all_elements ch))"
      by (simp add: all_elements_def)
    have "concat (map (removed r) ch) = child_nodes n"
      by (rule removed_forest[OF _ d f]) (use Element.IH in blast)
    with False show ?thesis by simp
  qed
qed simp_all

lemma removed_found_forest:
  assumes "distinct (map node_ref (all_elements ns))" and "find_element r ns = Some n"
  shows "concat (map (removed r) ns) = child_nodes n"
  by (rule removed_forest[OF _ assms(1) assms(2)[unfolded find_element_def]])
     (rule removed_found)

lemma mset_replace_all_forest:
  assumes "all_elements new = []"
  shows "mset (map node_ref (all_elements (map (replace_all r new) ns)))
       + mset (map node_ref (all_elements (concat (map (removed r) ns))))
       = mset (map node_ref (all_elements ns))"
  by (rule mset_forest) (rule mset_replace_all[OF assms])

lemma distinct_after_set:
  assumes "distinct (map node_ref (all_elements ns))" and "find_element r ns = Some n"
    and "all_elements new = []"
  shows "distinct (map node_ref (all_elements (map (replace_all r new) ns @ child_nodes n)))"
proof -
  have "mset (map node_ref (all_elements (map (replace_all r new) ns @ child_nodes n)))
        = mset (map node_ref (all_elements ns))"
    using mset_replace_all_forest[OF assms(3), of r ns] removed_found_forest[OF assms(1,2)]
    by simp
  then show ?thesis using assms(1) by (metis mset_eq_imp_distinct_iff)
qed

lemma member_after_replace:
  "m \<in> set (elements t) \<Longrightarrow> Some r \<notin> set (map node_ref (elements m)) \<Longrightarrow>
   (\<forall>n \<in> set (elements t). node_ref n = Some r \<longrightarrow> m \<notin> set (all_elements (child_nodes n))) \<Longrightarrow>
   m \<in> set (elements (replace_all r new t))"
proof (induction t)
  case (Element i tg cs ch)
  show ?case
  proof (cases "m = Element i tg cs ch")
    case True
    from Element.prems(2) have "replace_all r new m = m" by (rule replace_all_absent)
    with True show ?thesis by simp
  next
    case False
    with Element.prems(1) obtain c where c: "c \<in> set ch" "m \<in> set (elements c)" by auto
    have ir: "i \<noteq> r"
    proof
      assume "i = r"
      with Element.prems(3) have "m \<notin> set (all_elements ch)" by simp
      with c show False by (auto simp: all_elements_def)
    qed
    have "\<forall>n \<in> set (elements c). node_ref n = Some r \<longrightarrow> m \<notin> set (all_elements (child_nodes n))"
      using Element.prems(3) c(1) by auto
    with Element.IH[OF c(1) c(2) Element.prems(2)]
    have "m \<in> set (elements (replace_all r new c))" by simp
    with ir c(1) show ?thesis by auto
  qed
qed simp_all

lemma replaced_member:
  "distinct (map node_ref (elements t)) \<Longrightarrow> n \<in> set (elements t) \<Longrightarrow> node_ref n = Some r \<Longrightarrow>
   replace_all r new n \<in> set (elements (replace_all r new t))"
proof (induction t)
  case (Element i tg cs ch)
  show ?case
  proof (cases "n = Element i tg cs ch")
    case True
    with Element.prems(3) show ?thesis by simp
  next
    case False
    with Element.prems(2) obtain c where c: "c \<in> set ch" "n \<in> set (elements c)" by auto
    then have "Some r \<in> set (map node_ref (all_elements ch))"
      using Element.prems(3) by (force simp: all_elements_def)
    with Element.prems(1) have ir: "i \<noteq> r" by (auto simp: all_elements_def)
    from Element.prems(1) c(1) have "distinct (map node_ref (elements c))"
      by (auto simp: distinct_concat_iff map_concat dest!: split_list)
    with Element.IH c Element.prems(3)
    have "replace_all r new n \<in> set (elements (replace_all r new c))" by blast
    with ir c(1) show ?thesis by auto
  qed
qed simp_all

lemma distinct_tree_of_forest:
  "distinct (map node_ref (all_elements ns)) \<Longrightarrow> t \<in> set ns \<Longrightarrow> distinct (map node_ref (elements t))"
  by (induction ns) auto

lemma same_ref_same_node:
  "distinct (map node_ref (all_elements ns)) \<Longrightarrow> a \<in> set (all_elements ns) \<Longrightarrow>
   b \<in> set (all_elements ns) \<Longrightarrow> node_ref a = node_ref b \<Longrightarrow> a = b"
  by (metis distinct_map inj_on_eq_iff)

lemma all_elements_member:
  "m \<in> set (all_elements ns) \<longleftrightarrow> (\<exists>t \<in> set ns. m \<in> set (elements t))"
  by (auto simp: all_elements_def)

lemma find_after_set_other:
  assumes d: "distinct (map node_ref (all_elements ns))"
    and n: "find_element r ns = Some n"
    and m: "find_element r' ns = Some m"
    and out: "Some r \<notin> set (map node_ref (elements m))"
    and new: "all_elements new = []"
  shows "find_element r' (map (replace_all r new) ns @ child_nodes n) = Some m"
proof -
  from n have n': "n \<in> set (all_elements ns)" "node_ref n = Some r" by (auto dest: find_elementD)
  from m have m': "m \<in> set (all_elements ns)" "node_ref m = Some r'" by (auto dest: find_elementD)
  have mem: "m \<in> set (all_elements (map (replace_all r new) ns @ child_nodes n))"
  proof (cases "m \<in> set (all_elements (child_nodes n))")
    case True then show ?thesis by simp
  next
    case False
    from m'(1) obtain t where t: "t \<in> set ns" "m \<in> set (elements t)"
      by (auto simp: all_elements_member)
    have "\<forall>x \<in> set (elements t). node_ref x = Some r \<longrightarrow> m \<notin> set (all_elements (child_nodes x))"
    proof (intro ballI impI)
      fix x assume x: "x \<in> set (elements t)" "node_ref x = Some r"
      with t(1) have "x \<in> set (all_elements ns)" by (auto simp: all_elements_member)
      with d n' x(2) have "x = n" by (metis same_ref_same_node)
      with False show "m \<notin> set (all_elements (child_nodes x))" by simp
    qed
    with t(2) out have "m \<in> set (elements (replace_all r new t))"
      by (rule member_after_replace)
    with t(1) show ?thesis by (auto simp: all_elements_member)
  qed
  show ?thesis by (rule find_elementI[OF distinct_after_set[OF d n new] mem m'(2)])
qed

lemma find_after_set_self:
  assumes d: "distinct (map node_ref (all_elements ns))"
    and n: "find_element r ns = Some n"
    and new: "all_elements new = []"
  shows "find_element r (map (replace_all r new) ns @ child_nodes n) = Some (replace_all r new n)"
proof -
  from n have n': "n \<in> set (all_elements ns)" "node_ref n = Some r" by (auto dest: find_elementD)
  from n'(1) obtain t where t: "t \<in> set ns" "n \<in> set (elements t)"
    by (auto simp: all_elements_member)
  from d t(1) have "distinct (map node_ref (elements t))" by (rule distinct_tree_of_forest)
  then have "replace_all r new n \<in> set (elements (replace_all r new t))"
    using t(2) n'(2) by (rule replaced_member)
  with t(1) have "replace_all r new n \<in> set (all_elements (map (replace_all r new) ns @ child_nodes n))"
    by (auto simp: all_elements_member)
  moreover have "node_ref (replace_all r new n) = Some r" using n'(2) by simp
  ultimately show ?thesis using distinct_after_set[OF d n new] by (metis find_elementI)
qed

lemma text_nodes_replacement [simp]: "text_nodes replacement_text = [Text replacement_text]"
  by (simp add: text_nodes_def)

lemma all_elements_text_nodes [simp]: "all_elements (text_nodes v) = []"
  by (simp add: text_nodes_def)

lemma rewrite_replace_all:
  "rewrite S (replace_all r [Text replacement_text] t) = rewrite (insert r S) t"
  by (induction t) auto

lemma rewrite_empty: "rewrite {} t = t"
  by (induction t) (auto intro: map_idI)

lemma all_elements_trans:
  "e \<in> set (all_elements ns) \<Longrightarrow> set (elements e) \<subseteq> set (all_elements ns)"
  using elements_trans by (fastforce simp: all_elements_member)

lemma preorder_forest:
  assumes "\<And>c. c \<in> set ch \<Longrightarrow> distinct (map node_ref (elements c)) \<Longrightarrow> sorted_wrt outside (elements c)"
    and "distinct (map node_ref (all_elements ch))"
  shows "sorted_wrt outside (all_elements ch)"
  using assms
proof (induction ch)
  case Nil then show ?case by simp
next
  case (Cons c ch)
  from Cons.prems(2) have dc: "distinct (map node_ref (elements c))"
    and dch: "distinct (map node_ref (all_elements ch))"
    and disj: "set (map node_ref (elements c)) \<inter> set (map node_ref (all_elements ch)) = {}"
    by simp_all
  have 1: "sorted_wrt outside (elements c)" using Cons.prems(1) dc by simp
  have 2: "sorted_wrt outside (all_elements ch)" using Cons.IH Cons.prems(1) dch by simp
  have 3: "\<forall>x \<in> set (elements c). \<forall>y \<in> set (all_elements ch). outside x y"
  proof (intro ballI)
    fix x y assume x: "x \<in> set (elements c)" and y: "y \<in> set (all_elements ch)"
    from y have "set (elements y) \<subseteq> set (all_elements ch)" by (rule all_elements_trans)
    then have "set (map node_ref (elements y)) \<subseteq> set (map node_ref (all_elements ch))" by auto
    moreover from x have "node_ref x \<in> set (map node_ref (elements c))" by simp
    ultimately show "outside x y" using disj by blast
  qed
  from 1 2 3 show ?case by (simp add: sorted_wrt_append)
qed

lemma preorder_tree:
  "distinct (map node_ref (elements t)) \<Longrightarrow> sorted_wrt outside (elements t)"
proof (induction t)
  case (Element i tg cs ch)
  from Element.prems have d: "distinct (map node_ref (all_elements ch))"
    and i: "Some i \<notin> set (map node_ref (all_elements ch))"
    by (simp_all add: all_elements_def)
  have "sorted_wrt outside (all_elements ch)"
    by (rule preorder_forest[OF _ d]) (use Element.IH in blast)
  moreover have "\<forall>y \<in> set (all_elements ch). outside (Element i tg cs ch) y"
  proof
    fix y assume "y \<in> set (all_elements ch)"
    then have "set (elements y) \<subseteq> set (all_elements ch)" by (rule all_elements_trans)
    with i show "outside (Element i tg cs ch) y" by auto
  qed
  ultimately show ?case by (simp add: all_elements_def)
qed simp_all

lemma preorder_all_elements:
  "distinct (map node_ref (all_elements ns)) \<Longrightarrow> sorted_wrt outside (all_elements ns)"
  by (rule preorder_forest) (rule preorder_tree)

lemma has_target_text_nonempty: "has_target_text n \<Longrightarrow> descendant_text n \<noteq> []"
proof
  assume "has_target_text n" and "descendant_text n = []"
  then have "target_text = []" by (simp add: has_target_text_def)
  then show False by simp
qed

lemma heading_callback_dom:
  assumes "find_element r (store d) = Some n"
  shows "heading_callback dom_host (Some r) (d, k) =
     (if has_target_text n
      then Normal (d\<lparr>document := map (replace_all r [Text replacement_text]) (document d),
                      detached := map (replace_all r [Text replacement_text]) (detached d) @ child_nodes n\<rparr>, k + 1)
      else Normal (d, k))"
proof (cases "has_target_text n")
  case True
  with has_target_text_nonempty[OF True] assms show ?thesis
    by (simp add: dom_host_def dom_get_textContent_def dom_set_textContent_def has_target_text_def)
next
  case False
  with assms show ?thesis
    by (simp add: dom_host_def dom_get_textContent_def has_target_text_def)
qed

lemma store_set_replacement:
  "store (set_replacement r n d) = map (replace_all r [Text replacement_text]) (store d) @ child_nodes n"
  by (simp add: set_replacement_def)

lemma all_elements_Text [simp]: "all_elements [Text v] = []"
  by (simp add: all_elements_def)

lemma set_replacement_well_formed:
  "well_formed d \<Longrightarrow> find_element r (store d) = Some n \<Longrightarrow> well_formed (set_replacement r n d)"
  unfolding well_formed_def store_set_replacement
  by (rule distinct_after_set) simp_all

lemma set_replacement_other:
  "well_formed d \<Longrightarrow> find_element r (store d) = Some n \<Longrightarrow> find_element r' (store d) = Some m \<Longrightarrow>
   Some r \<notin> set (map node_ref (elements m)) \<Longrightarrow> find_element r' (store (set_replacement r n d)) = Some m"
  unfolding well_formed_def store_set_replacement
  by (rule find_after_set_other) simp_all

lemma set_replacement_self:
  "well_formed d \<Longrightarrow> find_element r (store d) = Some n \<Longrightarrow>
   find_element r (store (set_replacement r n d)) = Some (replace_all r [Text replacement_text] n)"
  unfolding well_formed_def store_set_replacement
  by (rule find_after_set_self) simp_all

lemma heading_callback_dom':
  assumes "find_element r (store d) = Some n"
  shows "heading_callback dom_host (Some r) (d, k) =
     (if has_target_text n then Normal (set_replacement r n d, k + 1) else Normal (d, k))"
  using heading_callback_dom[OF assms] by (simp add: set_replacement_def)

lemma replaced_refs_Nil [simp]: "replaced_refs [] = {}"
  by (simp add: replaced_refs_def)

lemma replaced_refs_Cons:
  "node_ref n = Some r \<Longrightarrow>
   replaced_refs (n # ns) = (if has_target_text n then insert r (replaced_refs ns) else replaced_refs ns)"
  by (auto simp: replaced_refs_def)

lemma elements_replaced:
  "node_ref n = Some r \<Longrightarrow> map node_ref (elements (replace_all r [Text v] n)) = [Some r]"
  by (cases n) simp_all

lemma forEach_dom:
  assumes "well_formed d"
    and "\<forall>n \<in> set ns. \<exists>r. node_ref n = Some r \<and> find_element r (store d) = Some n"
    and "sorted_wrt outside ns"
  shows "\<exists>d'. forEach (heading_callback dom_host) (map node_ref ns) (d, k)
                = Normal (d', k + length (filter has_target_text ns))
      \<and> well_formed d'
      \<and> document d' = map (rewrite (replaced_refs ns)) (document d)
      \<and> (\<forall>r m. find_element r (store d) = Some m \<longrightarrow>
                 (\<forall>n \<in> set ns. has_target_text n \<longrightarrow> outside n m) \<longrightarrow>
                 find_element r (store d') = Some m)
      \<and> (\<forall>n \<in> set ns. has_target_text n \<longrightarrow>
            (\<exists>r. node_ref n = Some r
                \<and> find_element r (store d') = Some (replace_all r [Text replacement_text] n)))"
  using assms
proof (induction ns arbitrary: d k)
  case Nil
  then show ?case by (simp add: rewrite_empty)
next
  case (Cons n ns)
  from Cons.prems(2) obtain r where r: "node_ref n = Some r" "find_element r (store d) = Some n"
    by auto
  from Cons.prems(3) have out: "\<forall>n' \<in> set ns. outside n n'" and sorted: "sorted_wrt outside ns"
    by simp_all
  show ?case
  proof (cases "has_target_text n")
    case False
    from Cons.prems(2) have found: "\<forall>n \<in> set ns. \<exists>r. node_ref n = Some r \<and> find_element r (store d) = Some n"
      by simp
    from Cons.IH[OF Cons.prems(1) found sorted, of k] obtain d' where d':
      "forEach (heading_callback dom_host) (map node_ref ns) (d, k)
          = Normal (d', k + length (filter has_target_text ns))"
      "well_formed d'"
      "document d' = map (rewrite (replaced_refs ns)) (document d)"
      "\<forall>r m. find_element r (store d) = Some m \<longrightarrow>
                 (\<forall>n \<in> set ns. has_target_text n \<longrightarrow> outside n m) \<longrightarrow>
                 find_element r (store d') = Some m"
      "\<forall>n \<in> set ns. has_target_text n \<longrightarrow>
            (\<exists>r. node_ref n = Some r
                \<and> find_element r (store d') = Some (replace_all r [Text replacement_text] n))"
      by blast
    have 1: "forEach (heading_callback dom_host) (map node_ref (n # ns)) (d, k)
          = Normal (d', k + length (filter has_target_text (n # ns)))"
      using d'(1) False r(1) heading_callback_dom'[OF r(2), of k]
      by (simp del: heading_callback.simps)
    have 3: "document d' = map (rewrite (replaced_refs (n # ns))) (document d)"
      using d'(3) False r(1) by (simp add: replaced_refs_Cons)
    have 4: "\<forall>r m. find_element r (store d) = Some m \<longrightarrow>
                 (\<forall>n' \<in> set (n # ns). has_target_text n' \<longrightarrow> outside n' m) \<longrightarrow>
                 find_element r (store d') = Some m"
      using d'(4) by simp
    have 5: "\<forall>n' \<in> set (n # ns). has_target_text n' \<longrightarrow>
            (\<exists>r. node_ref n' = Some r
                \<and> find_element r (store d') = Some (replace_all r [Text replacement_text] n'))"
      using d'(5) False by simp
    from 1 d'(2) 3 4 5 show ?thesis by blast
  next
    case True
    let ?d1 = "set_replacement r n d"
    have wf1: "well_formed ?d1" using Cons.prems(1) r(2) by (rule set_replacement_well_formed)
    have keep: "find_element r' (store ?d1) = Some m"
      if "find_element r' (store d) = Some m" "outside n m" for r' m
      using Cons.prems(1) r(2) that(1) that(2)[unfolded r(1)] by (rule set_replacement_other)
    have found1: "\<forall>n' \<in> set ns. \<exists>r'. node_ref n' = Some r' \<and> find_element r' (store ?d1) = Some n'"
    proof
      fix n' assume n': "n' \<in> set ns"
      with Cons.prems(2) obtain r' where r': "node_ref n' = Some r'" "find_element r' (store d) = Some n'"
        by auto
      from n' out have "outside n n'" by simp
      with r'(2) have "find_element r' (store ?d1) = Some n'" by (rule keep)
      with r'(1) show "\<exists>r'. node_ref n' = Some r' \<and> find_element r' (store ?d1) = Some n'" by simp
    qed
    from Cons.IH[OF wf1 found1 sorted, of "k + 1"] obtain d' where d':
      "forEach (heading_callback dom_host) (map node_ref ns) (?d1, k + 1)
          = Normal (d', k + 1 + length (filter has_target_text ns))"
      "well_formed d'"
      "document d' = map (rewrite (replaced_refs ns)) (document ?d1)"
      "\<forall>r m. find_element r (store ?d1) = Some m \<longrightarrow>
                 (\<forall>n \<in> set ns. has_target_text n \<longrightarrow> outside n m) \<longrightarrow>
                 find_element r (store d') = Some m"
      "\<forall>n \<in> set ns. has_target_text n \<longrightarrow>
            (\<exists>r. node_ref n = Some r
                \<and> find_element r (store d') = Some (replace_all r [Text replacement_text] n))"
      by blast
    have 1: "forEach (heading_callback dom_host) (map node_ref (n # ns)) (d, k)
          = Normal (d', k + length (filter has_target_text (n # ns)))"
      using d'(1) True r(1) heading_callback_dom'[OF r(2), of k]
      by (simp del: heading_callback.simps)
    have 3: "document d' = map (rewrite (replaced_refs (n # ns))) (document d)"
      using d'(3) True r(1)
      by (simp add: replaced_refs_Cons set_replacement_def rewrite_replace_all)
    have 4: "\<forall>r m. find_element r (store d) = Some m \<longrightarrow>
                 (\<forall>n' \<in> set (n # ns). has_target_text n' \<longrightarrow> outside n' m) \<longrightarrow>
                 find_element r (store d') = Some m"
    proof (intro allI impI)
      fix r' m assume m: "find_element r' (store d) = Some m"
        and o: "\<forall>n' \<in> set (n # ns). has_target_text n' \<longrightarrow> outside n' m"
      from o True have "outside n m" by simp
      with m have "find_element r' (store ?d1) = Some m" by (rule keep)
      moreover from o have "\<forall>n' \<in> set ns. has_target_text n' \<longrightarrow> outside n' m" by simp
      ultimately show "find_element r' (store d') = Some m" using d'(4) by blast
    qed
    have self: "find_element r (store d') = Some (replace_all r [Text replacement_text] n)"
    proof -
      have a: "find_element r (store ?d1) = Some (replace_all r [Text replacement_text] n)"
        using Cons.prems(1) r(2) by (rule set_replacement_self)
      have "\<forall>n' \<in> set ns. has_target_text n' \<longrightarrow> outside n' (replace_all r [Text replacement_text] n)"
      proof (intro ballI impI)
        fix n' assume n': "n' \<in> set ns"
        with Cons.prems(2) obtain r' where r': "node_ref n' = Some r'" by auto
        then have "n' \<in> set (elements n')" by (simp add: elements_self)
        moreover from n' out have "outside n n'" by simp
        ultimately have "node_ref n' \<noteq> Some r" using r(1) by force
        then show "outside n' (replace_all r [Text replacement_text] n)"
          by (simp add: elements_replaced[OF r(1)])
      qed
      with a d'(4) show ?thesis by blast
    qed
    have 5: "\<forall>n' \<in> set (n # ns). has_target_text n' \<longrightarrow>
            (\<exists>r. node_ref n' = Some r
                \<and> find_element r (store d') = Some (replace_all r [Text replacement_text] n'))"
      using d'(5) self r(1) by auto
    from 1 d'(2) 3 4 5 show ?thesis by blast
  qed
qed

lemma all_elements_are_elements: "e \<in> set (all_elements ns) \<Longrightarrow> node_ref e \<noteq> None"
  by (auto simp: all_elements_member dest: elements_are_elements)

lemma well_formed_document: "well_formed d \<Longrightarrow> distinct (map node_ref (all_elements (document d)))"
  by (simp add: well_formed_def)

lemma selected_found:
  assumes "well_formed d" and "n \<in> set (selected d)"
  shows "\<exists>r. node_ref n = Some r \<and> find_element r (store d) = Some n"
proof -
  from assms(2) have n: "n \<in> set (all_elements (store d))" by (simp add: selected_def)
  then obtain r where r: "node_ref n = Some r" using all_elements_are_elements by blast
  from assms(1) n r have "find_element r (store d) = Some n"
    unfolding well_formed_def by (rule find_elementI)
  with r show ?thesis by simp
qed

lemma selected_sorted: "well_formed d \<Longrightarrow> sorted_wrt outside (selected d)"
  unfolding selected_def
  by (intro sorted_wrt_filter preorder_all_elements well_formed_document)

lemma pass_dom:
  assumes "well_formed d"
  shows "\<exists>d'. replaceQueryParameters dom_host (d, con)
                = Normal (d', con @ [count_record (length (filter has_target_text (selected d)))])
      \<and> well_formed d'
      \<and> document d' = map (rewrite (replaced_refs (selected d))) (document d)
      \<and> (\<forall>r m. find_element r (store d) = Some m \<longrightarrow>
                 (\<forall>n \<in> set (selected d). has_target_text n \<longrightarrow> outside n m) \<longrightarrow>
                 find_element r (store d') = Some m)
      \<and> (\<forall>n \<in> set (selected d). has_target_text n \<longrightarrow>
            (\<exists>r. node_ref n = Some r
                \<and> find_element r (store d') = Some (replace_all r [Text replacement_text] n)))"
proof -
  have found: "\<forall>n \<in> set (selected d). \<exists>r. node_ref n = Some r \<and> find_element r (store d) = Some n"
    using selected_found[OF assms] by blast
  from forEach_dom[OF assms found selected_sorted[OF assms], of 0] obtain d' where d':
    "forEach (heading_callback dom_host) (map node_ref (selected d)) (d, 0)
        = Normal (d', 0 + length (filter has_target_text (selected d)))"
    and rest: "well_formed d'"
      "document d' = map (rewrite (replaced_refs (selected d))) (document d)"
      "\<forall>r m. find_element r (store d) = Some m \<longrightarrow>
                 (\<forall>n \<in> set (selected d). has_target_text n \<longrightarrow> outside n m) \<longrightarrow>
                 find_element r (store d') = Some m"
      "\<forall>n \<in> set (selected d). has_target_text n \<longrightarrow>
            (\<exists>r. node_ref n = Some r
                \<and> find_element r (store d') = Some (replace_all r [Text replacement_text] n))"
    by blast
  from d' have "replaceQueryParameters dom_host (d, con)
                = Normal (d', con @ [count_record (length (filter has_target_text (selected d)))])"
    by (simp add: replaceQueryParameters_def try_block_def dom_host_def dom_querySelectorAll_def
        selected_def count_record_def)
  with rest show ?thesis by blast
qed

lemma forEach_dom_noop:
  assumes "\<forall>n \<in> set ns. \<exists>r. node_ref n = Some r \<and> find_element r (store d) = Some n"
    and "\<forall>n \<in> set ns. \<not> has_target_text n"
  shows "forEach (heading_callback dom_host) (map node_ref ns) (d, k) = Normal (d, k)"
  using assms
proof (induction ns)
  case Nil then show ?case by simp
next
  case (Cons n ns)
  from Cons.prems(1) obtain r where r: "node_ref n = Some r" "find_element r (store d) = Some n"
    by auto
  from Cons.prems(2) have "\<not> has_target_text n" by simp
  with heading_callback_dom'[OF r(2), of k]
  have "heading_callback dom_host (Some r) (d, k) = Normal (d, k)" by simp
  with Cons r(1) show ?case by (simp del: heading_callback.simps)
qed

lemma pass_dom_noop:
  assumes "well_formed d" and "\<forall>n \<in> set (selected d). \<not> has_target_text n"
  shows "replaceQueryParameters dom_host (d, con) = Normal (d, con @ [count_record 0])"
proof -
  have found: "\<forall>n \<in> set (selected d). \<exists>r. node_ref n = Some r \<and> find_element r (store d) = Some n"
    using selected_found[OF assms(1)] by blast
  from forEach_dom_noop[OF found assms(2), of 0] show ?thesis
    by (simp add: replaceQueryParameters_def try_block_def dom_host_def dom_querySelectorAll_def
        selected_def count_record_def)
qed

section \<open>The pass on the document tree\<close>

lemma matches_rewrite [simp]: "matches sel (rewrite S n) = matches sel n"
  by (cases n; cases sel) simp_all

lemma node_ref_rewrite [simp]: "node_ref (rewrite S n) = node_ref n"
  by (cases n) simp_all

lemma elements_rewrite:
  "e' \<in> set (elements (rewrite S t)) \<Longrightarrow> \<exists>e \<in> set (elements t). e' = rewrite S e"
proof (induction t)
  case (Element i tg cs ch)
  show ?case
  proof (cases "i \<in> S")
    case True
    with Element.prems show ?thesis by (auto simp: all_elements_def)
  next
    case False
    show ?thesis
    proof (cases "e' = rewrite S (Element i tg cs ch)")
      case True then show ?thesis by auto
    next
      case ne: False
      with False Element.prems obtain c where c: "c \<in> set ch" "e' \<in> set (elements (rewrite S c))"
        by auto
      with Element.IH obtain e where "e \<in> set (elements c)" "e' = rewrite S e" by blast
      with c(1) show ?thesis by auto
    qed
  qed
qed simp_all

lemma rewrite_absent:
  "\<forall>x \<in> set (elements t). \<forall>r. node_ref x = Some r \<longrightarrow> r \<notin> S \<Longrightarrow> rewrite S t = t"
proof (induction t)
  case (Element i tg cs ch)
  have "map (rewrite S) ch = ch"
  proof (rule map_idI)
    fix c assume c: "c \<in> set ch"
    with Element.prems have "\<forall>x \<in> set (elements c). \<forall>r. node_ref x = Some r \<longrightarrow> r \<notin> S" by auto
    with Element.IH c show "rewrite S c = c" by blast
  qed
  moreover from Element.prems have "i \<notin> S" by simp
  ultimately show ?case by simp
qed simp_all

lemma rewrite_hit:
  "node_ref n = Some r \<Longrightarrow> r \<in> S \<Longrightarrow> descendant_text (rewrite S n) = replacement_text"
  by (cases n) simp_all

lemma trim_replacement_text: "trim replacement_text \<noteq> target_text"
  by (simp add: replacement_text_def target_text_def utf16_def trim_def is_white_space_def)

lemma replaced_refs_selected:
  assumes "well_formed d" and "e \<in> set (all_elements (document d))" and "node_ref e = Some r"
  shows "r \<in> replaced_refs (selected d) \<longleftrightarrow> matches heading_selector e \<and> has_target_text e"
proof
  assume "r \<in> replaced_refs (selected d)"
  then obtain n where n: "n \<in> set (selected d)" "has_target_text n" "node_ref n = Some r"
    by (auto simp: replaced_refs_def)
  from n(1) have "n \<in> set (all_elements (document d))" "matches heading_selector n"
    by (simp_all add: selected_def)
  moreover from this(1) assms(2,3) n(3) have "n = e"
    using same_ref_same_node[OF well_formed_document[OF assms(1)]] by simp
  ultimately show "matches heading_selector e \<and> has_target_text e" using n(2) by simp
next
  assume "matches heading_selector e \<and> has_target_text e"
  with assms(2,3) show "r \<in> replaced_refs (selected d)"
    by (auto simp: replaced_refs_def selected_def)
qed

lemma flat_document_after_pass:
  assumes wf: "well_formed d" and flat: "headings_not_nested (document d)"
    and e': "e' \<in> set (all_elements (map (rewrite (replaced_refs (selected d))) (document d)))"
    and m: "matches heading_selector e'"
  shows "\<not> has_target_text e'"
proof -
  let ?S = "replaced_refs (selected d)"
  from e' obtain t where t: "t \<in> set (document d)" "e' \<in> set (elements (rewrite ?S t))"
    by (auto simp: all_elements_member)
  from elements_rewrite[OF t(2)] obtain e where e: "e \<in> set (elements t)" "e' = rewrite ?S e"
    by blast
  from e(1) t(1) have ed: "e \<in> set (all_elements (document d))" by (auto simp: all_elements_member)
  then obtain r where r: "node_ref e = Some r" using all_elements_are_elements by blast
  from m e(2) have me: "matches heading_selector e" by simp
  show ?thesis
  proof (cases "has_target_text e")
    case True
    with me ed r wf have "r \<in> ?S" by (simp add: replaced_refs_selected)
    with r e(2) have "descendant_text e' = replacement_text" by (simp add: rewrite_hit)
    with trim_replacement_text show ?thesis by (simp add: has_target_text_def)
  next
    case False
    have "\<forall>x \<in> set (elements e). \<forall>q. node_ref x = Some q \<longrightarrow> q \<notin> ?S"
    proof (intro ballI allI impI)
      fix x q assume x: "x \<in> set (elements e)" "node_ref x = Some q"
      from x(1) ed have xd: "x \<in> set (all_elements (document d))"
        using all_elements_trans by blast
      show "q \<notin> ?S"
      proof (cases "x = e")
        case True
        with False xd x(2) wf show ?thesis by (simp add: replaced_refs_selected)
      next
        case ne: False
        with x(1) have "x \<in> set (all_elements (child_nodes e))"
          by (cases e) (auto simp: all_elements_def)
        with flat ed me have "\<not> matches heading_selector x"
          by (auto simp: headings_not_nested_def)
        with xd x(2) wf show ?thesis by (simp add: replaced_refs_selected)
      qed
    qed
    then have "rewrite ?S e = e" by (rule rewrite_absent)
    with e(2) False show ?thesis by simp
  qed
qed

lemma selected_after_flat_pass:
  assumes "well_formed d" and "headings_not_nested (document d)"
    and "document d' = map (rewrite (replaced_refs (selected d))) (document d)"
  shows "\<forall>n \<in> set (selected d'). \<not> has_target_text n"
  using flat_document_after_pass[OF assms(1,2)] assms(3) by (auto simp: selected_def)

lemma replaced_refs_selected_eq:
  "replaced_refs (selected d) =
     {r. \<exists>n \<in> set (all_elements (document d)).
           matches heading_selector n \<and> trim (descendant_text n) = target_text \<and> node_ref n = Some r}"
  by (auto simp: replaced_refs_def selected_def has_target_text_def)

lemma descendant_text_replaced:
  "node_ref n = Some r \<Longrightarrow> descendant_text (replace_all r [Text v] n) = v"
  by (cases n) simp_all

text \<open>
  C1, as amended. A pass on a well-formed store returns normally and writes one log record.
  Every element that matched the selector and had the trimmed text \<^verbatim>\<open>Query Parameters\<close> at
  scan time has the text content \<^verbatim>\<open>Parameters\<close> afterwards. When no selected heading has a
  selected heading among its descendants, no element of the document that matches the
  selector has the trimmed text \<^verbatim>\<open>Query Parameters\<close> after the pass.
\<close>

theorem pass_clears_target_text:
  assumes "well_formed d"
  shows "\<exists>d' k. replaceQueryParameters dom_host (d, con) = Normal (d', con @ [count_record k])
     \<and> (headings_not_nested (document d) \<longrightarrow>
          (\<forall>e \<in> set (all_elements (document d')).
              matches heading_selector e \<longrightarrow> trim (descendant_text e) \<noteq> target_text))
     \<and> (\<forall>n \<in> set (all_elements (document d)).
          matches heading_selector n \<and> trim (descendant_text n) = target_text \<longrightarrow>
          (\<exists>r e. node_ref n = Some r \<and> find_element r (store d') = Some e
                \<and> descendant_text e = replacement_text))"
proof -
  from pass_dom[OF assms, of con] obtain d' where d':
    "replaceQueryParameters dom_host (d, con)
        = Normal (d', con @ [count_record (length (filter has_target_text (selected d)))])"
    "document d' = map (rewrite (replaced_refs (selected d))) (document d)"
    "\<forall>n \<in> set (selected d). has_target_text n \<longrightarrow>
        (\<exists>r. node_ref n = Some r
            \<and> find_element r (store d') = Some (replace_all r [Text replacement_text] n))"
    by blast
  have 1: "headings_not_nested (document d) \<longrightarrow>
          (\<forall>e \<in> set (all_elements (document d')).
              matches heading_selector e \<longrightarrow> trim (descendant_text e) \<noteq> target_text)"
    using flat_document_after_pass[OF assms] d'(2) by (auto simp: has_target_text_def)
  have 2: "\<forall>n \<in> set (all_elements (document d)).
          matches heading_selector n \<and> trim (descendant_text n) = target_text \<longrightarrow>
          (\<exists>r e. node_ref n = Some r \<and> find_element r (store d') = Some e
                \<and> descendant_text e = replacement_text)"
  proof (intro ballI impI)
    fix n assume n: "n \<in> set (all_elements (document d))"
      and "matches heading_selector n \<and> trim (descendant_text n) = target_text"
    then have "n \<in> set (selected d)" "has_target_text n"
      by (simp_all add: selected_def has_target_text_def)
    with d'(3) obtain r where r: "node_ref n = Some r"
      "find_element r (store d') = Some (replace_all r [Text replacement_text] n)" by blast
    from r(1) have "descendant_text (replace_all r [Text replacement_text] n) = replacement_text"
      by (rule descendant_text_replaced)
    with r show "\<exists>r e. node_ref n = Some r \<and> find_element r (store d') = Some e
                \<and> descendant_text e = replacement_text" by blast
  qed
  from d'(1) 1 2 show ?thesis by blast
qed

text \<open>
  C2, as amended. On a well-formed store whose selected headings are not nested, a second
  pass right after the first leaves the store as the first pass left it and reports zero
  replacements.
\<close>

theorem pass_idempotent:
  assumes "well_formed d" and "headings_not_nested (document d)"
  shows "\<exists>d' k. replaceQueryParameters dom_host (d, con) = Normal (d', con @ [count_record k])
     \<and> replaceQueryParameters dom_host (d', con @ [count_record k])
         = Normal (d', con @ [count_record k, count_record 0])"
proof -
  from pass_dom[OF assms(1), of con] obtain d' k where d':
    "replaceQueryParameters dom_host (d, con) = Normal (d', con @ [count_record k])"
    "well_formed d'"
    "document d' = map (rewrite (replaced_refs (selected d))) (document d)"
    by blast
  from selected_after_flat_pass[OF assms d'(3)]
  have "\<forall>n \<in> set (selected d'). \<not> has_target_text n" .
  from pass_dom_noop[OF d'(2) this, of "con @ [count_record k]"] d'(1)
  show ?thesis by auto
qed

text \<open>
  C5. A pass writes only to the elements that match the selector and have the trimmed text
  \<^verbatim>\<open>Query Parameters\<close>: the document after the pass is the document before it with the
  children of exactly those elements replaced by the text node \<^verbatim>\<open>Parameters\<close>, every other
  node keeping its kind, name, classes and children; and every element of the store whose
  subtree holds no such element (an element of another name or class with that very text,
  a heading with another text) is found unchanged after the pass.
\<close>

theorem pass_frame:
  assumes "well_formed d"
  shows "\<exists>d' k. replaceQueryParameters dom_host (d, con) = Normal (d', con @ [count_record k])
     \<and> document d' =
         map (rewrite {r. \<exists>n \<in> set (all_elements (document d)).
                 matches heading_selector n \<and> trim (descendant_text n) = target_text
                 \<and> node_ref n = Some r}) (document d)
     \<and> (\<forall>r m. find_element r (store d) = Some m \<longrightarrow>
           (\<forall>x \<in> set (elements m).
               \<not> (matches heading_selector x \<and> trim (descendant_text x) = target_text)) \<longrightarrow>
           find_element r (store d') = Some m)"
proof -
  from pass_dom[OF assms, of con] obtain d' where d':
    "replaceQueryParameters dom_host (d, con)
        = Normal (d', con @ [count_record (length (filter has_target_text (selected d)))])"
    "document d' = map (rewrite (replaced_refs (selected d))) (document d)"
    "\<forall>r m. find_element r (store d) = Some m \<longrightarrow>
        (\<forall>n \<in> set (selected d). has_target_text n \<longrightarrow> outside n m) \<longrightarrow>
        find_element r (store d') = Some m"
    by blast
  have 3: "\<forall>r m. find_element r (store d) = Some m \<longrightarrow>
           (\<forall>x \<in> set (elements m).
               \<not> (matches heading_selector x \<and> trim (descendant_text x) = target_text)) \<longrightarrow>
           find_element r (store d') = Some m"
  proof (intro allI impI)
    fix r m assume m: "find_element r (store d) = Some m"
      and clean: "\<forall>x \<in> set (elements m).
               \<not> (matches heading_selector x \<and> trim (descendant_text x) = target_text)"
    from m have ms: "m \<in> set (all_elements (store d))" by (auto dest: find_elementD)
    have "\<forall>n \<in> set (selected d). has_target_text n \<longrightarrow> outside n m"
    proof (intro ballI impI notI)
      fix n assume n: "n \<in> set (selected d)" "has_target_text n"
        and "node_ref n \<in> set (map node_ref (elements m))"
      then obtain x where x: "x \<in> set (elements m)" "node_ref x = node_ref n" by auto
      from x(1) ms have "x \<in> set (all_elements (store d))" using all_elements_trans by blast
      moreover from n(1) have "n \<in> set (all_elements (store d))" by (simp add: selected_def)
      ultimately have "x = n" using assms x(2) unfolding well_formed_def
        by (metis same_ref_same_node)
      with n x(1) clean show False by (simp add: selected_def has_target_text_def)
    qed
    with d'(3) m show "find_element r (store d') = Some m" by blast
  qed
  from d'(1) d'(2)[unfolded replaced_refs_selected_eq] 3 show ?thesis by blast
qed

lemma well_formed_scenario: "well_formed scenario_document"
  by (simp add: well_formed_def scenario_document_def section_heading_def all_elements_def)

lemma flat_scenario: "headings_not_nested (document scenario_document)"
  by (simp add: headings_not_nested_def scenario_document_def section_heading_def all_elements_def
      heading_selector_def utf16_def)

lemma well_formed_frame: "well_formed frame_document"
  by (simp add: well_formed_def frame_document_def section_heading_def all_elements_def)

lemma well_formed_nested: "well_formed nested_document"
  by (simp add: well_formed_def nested_document_def section_heading_def all_elements_def)

theorem pass_clears_target_text_witness:
  "well_formed scenario_document \<and> headings_not_nested (document scenario_document)
   \<and> (\<exists>d' k. replaceQueryParameters dom_host (scenario_document, []) = Normal (d', [] @ [count_record k])
     \<and> (headings_not_nested (document scenario_document) \<longrightarrow>
          (\<forall>e \<in> set (all_elements (document d')).
              matches heading_selector e \<longrightarrow> trim (descendant_text e) \<noteq> target_text))
     \<and> (\<forall>n \<in> set (all_elements (document scenario_document)).
          matches heading_selector n \<and> trim (descendant_text n) = target_text \<longrightarrow>
          (\<exists>r e. node_ref n = Some r \<and> find_element r (store d') = Some e
                \<and> descendant_text e = replacement_text)))"
  using well_formed_scenario flat_scenario
    pass_clears_target_text[OF well_formed_scenario, of "[]"] by blast

theorem pass_idempotent_witness:
  "well_formed scenario_document \<and> headings_not_nested (document scenario_document)
   \<and> (\<exists>d' k. replaceQueryParameters dom_host (scenario_document, []) = Normal (d', [] @ [count_record k])
     \<and> replaceQueryParameters dom_host (d', [] @ [count_record k])
         = Normal (d', [] @ [count_record k, count_record 0]))"
  using well_formed_scenario flat_scenario
    pass_idempotent[OF well_formed_scenario flat_scenario, of "[]"] by blast

theorem pass_frame_witness:
  "well_formed frame_document
   \<and> (\<exists>d' k. replaceQueryParameters dom_host (frame_document, []) = Normal (d', [] @ [count_record k])
     \<and> document d' =
         map (rewrite {r. \<exists>n \<in> set (all_elements (document frame_document)).
                 matches heading_selector n \<and> trim (descendant_text n) = target_text
                 \<and> node_ref n = Some r}) (document frame_document)
     \<and> (\<forall>r m. find_element r (store frame_document) = Some m \<longrightarrow>
           (\<forall>x \<in> set (elements m).
               \<not> (matches heading_selector x \<and> trim (descendant_text x) = target_text)) \<longrightarrow>
           find_element r (store d') = Some m))"
  using well_formed_frame pass_frame[OF well_formed_frame, of "[]"] by blast

text \<open>
  C1 fails as stated: a heading \<^verbatim>\<open>Query \<close> followed by a nested heading
  \<^verbatim>\<open>Query Parameters\<close> has the text \<^verbatim>\<open>Query Query Parameters\<close> when it is visited, and the
  text \<^verbatim>\<open>Query Parameters\<close> once the nested heading has been rewritten.
\<close>

theorem nested_heading_keeps_target_text:
  "well_formed nested_document
   \<and> replaceQueryParameters dom_host (nested_document, [])
       = Normal (nested_document_after, [count_record 1])
   \<and> map (trim \<circ> descendant_text) (selected nested_document_after)
       = [target_text, replacement_text]"
  using well_formed_nested
  by (simp add: evaluate_pass selected_def nested_document_def nested_document_after_def
      section_heading_def)

text \<open>
  C2 fails as stated: on that document the second pass replaces one more heading, reports
  the count 1 and changes the document.
\<close>

theorem nested_heading_second_pass:
  "well_formed nested_document
   \<and> replaceQueryParameters dom_host (nested_document, [])
       = Normal (nested_document_after, [count_record 1])
   \<and> replaceQueryParameters dom_host (nested_document_after, [count_record 1])
       = Normal (nested_document_twice, [count_record 1, count_record 1])
   \<and> nested_document_twice \<noteq> nested_document_after"
  using well_formed_nested
  by (simp add: evaluate_pass nested_document_def nested_document_after_def
      nested_document_twice_def section_heading_def)

section \<open>The guard and the failure boundary\<close>

lemma dropWhile_append_hd:
  "ys \<noteq> [] \<Longrightarrow> \<not> P (hd ys) \<Longrightarrow> dropWhile P (xs @ ys) = dropWhile P xs @ ys"
  by (induction xs) (auto simp: neq_Nil_conv)

lemma trim_sandwich:
  assumes "m \<noteq> []" and "\<not> is_white_space (hd m)" and "\<not> is_white_space (last m)"
  shows "trim (a @ m @ b) = dropWhile is_white_space a @ m @ rev (dropWhile is_white_space (rev b))"
proof -
  have 1: "dropWhile is_white_space (a @ m @ b) = dropWhile is_white_space a @ m @ b"
    using assms(1,2) by (intro dropWhile_append_hd) simp_all
  from assms(1,3) have "rev m @ rev (dropWhile is_white_space a) \<noteq> []"
    "\<not> is_white_space (hd (rev m @ rev (dropWhile is_white_space a)))"
    by (simp_all add: hd_rev)
  then have "dropWhile is_white_space (rev b @ rev m @ rev (dropWhile is_white_space a))
        = dropWhile is_white_space (rev b) @ rev m @ rev (dropWhile is_white_space a)"
    by (rule dropWhile_append_hd)
  with 1 show ?thesis by (simp add: trim_def)
qed

lemma target_text_ends:
  "\<not> is_white_space (hd target_text)" "\<not> is_white_space (last target_text)"
  by (simp_all add: target_text_def utf16_def is_white_space_def)

lemma trim_around_target:
  "trim (a @ target_text @ b) = target_text \<longleftrightarrow> (\<forall>c \<in> set (a @ b). is_white_space c)"
proof -
  have "trim (a @ target_text @ b)
      = dropWhile is_white_space a @ target_text @ rev (dropWhile is_white_space (rev b))"
    by (rule trim_sandwich) (simp_all add: target_text_ends)
  moreover have "dropWhile is_white_space a @ target_text @ rev (dropWhile is_white_space (rev b))
      = target_text \<longleftrightarrow> dropWhile is_white_space a = [] \<and> dropWhile is_white_space (rev b) = []"
    (is "?l = _ \<longleftrightarrow> _")
  proof
    assume eq: "?l = target_text"
    then have "length ?l = length target_text" by simp
    then show "dropWhile is_white_space a = [] \<and> dropWhile is_white_space (rev b) = []" by simp
  next
    assume "dropWhile is_white_space a = [] \<and> dropWhile is_white_space (rev b) = []"
    then have "?l = [] @ target_text @ rev []" by (simp only:)
    then show "?l = target_text" by simp
  qed
  ultimately show ?thesis by auto
qed

lemma trim_examples:
  "trim (utf16 ''Query Parameters '') = target_text"
  "trim (utf16 ''Query Parameters List'') \<noteq> target_text"
  by (simp_all add: target_text_def utf16_def trim_def is_white_space_def)

text \<open>
  C3. The callback compares the trimmed text content with \<^verbatim>\<open>Query Parameters\<close> for
  equality. When they differ the callback changes nothing; when they are equal the whole
  text content becomes \<^verbatim>\<open>Parameters\<close>. A text that contains \<^verbatim>\<open>Query Parameters\<close> is
  replaced exactly when everything around it is white space: \<^verbatim>\<open>Query Parameters \<close> is,
  \<^verbatim>\<open>Query Parameters List\<close> is not.
\<close>

theorem exact_match_after_trim:
  assumes "well_formed d" and "find_element r (store d) = Some n"
  shows "(trim (descendant_text n) \<noteq> target_text \<longrightarrow>
            heading_callback dom_host (Some r) (d, k) = Normal (d, k))
       \<and> (trim (descendant_text n) = target_text \<longrightarrow>
            (\<exists>d' e. heading_callback dom_host (Some r) (d, k) = Normal (d', k + 1)
                  \<and> find_element r (store d') = Some e \<and> descendant_text e = replacement_text))
       \<and> (\<forall>a b. descendant_text n = a @ target_text @ b \<longrightarrow>
            (trim (descendant_text n) = target_text \<longleftrightarrow> (\<forall>c \<in> set (a @ b). is_white_space c)))
       \<and> trim (utf16 ''Query Parameters '') = target_text
       \<and> trim (utf16 ''Query Parameters List'') \<noteq> target_text"
proof -
  note cb = heading_callback_dom'[OF assms(2), of k]
  have 1: "trim (descendant_text n) \<noteq> target_text \<longrightarrow>
            heading_callback dom_host (Some r) (d, k) = Normal (d, k)"
    using cb by (simp add: has_target_text_def)
  have 2: "trim (descendant_text n) = target_text \<longrightarrow>
            (\<exists>d' e. heading_callback dom_host (Some r) (d, k) = Normal (d', k + 1)
                  \<and> find_element r (store d') = Some e \<and> descendant_text e = replacement_text)"
  proof
    assume t: "trim (descendant_text n) = target_text"
    with cb have a: "heading_callback dom_host (Some r) (d, k) = Normal (set_replacement r n d, k + 1)"
      by (simp add: has_target_text_def)
    from assms(2) have "node_ref n = Some r" by (auto dest: find_elementD)
    then have "descendant_text (replace_all r [Text replacement_text] n) = replacement_text"
      by (rule descendant_text_replaced)
    with a set_replacement_self[OF assms]
    show "\<exists>d' e. heading_callback dom_host (Some r) (d, k) = Normal (d', k + 1)
                  \<and> find_element r (store d') = Some e \<and> descendant_text e = replacement_text"
      by blast
  qed
  have 3: "\<forall>a b. descendant_text n = a @ target_text @ b \<longrightarrow>
            (trim (descendant_text n) = target_text \<longleftrightarrow> (\<forall>c \<in> set (a @ b). is_white_space c))"
    using trim_around_target by simp
  from 1 2 3 trim_examples show ?thesis by blast
qed

lemma well_formed_trailing: "well_formed trailing_space_document"
  by (simp add: well_formed_def trailing_space_document_def section_heading_def all_elements_def)

lemma find_trailing:
  "find_element 2 (store trailing_space_document) = Some (section_heading 2 ''Query Parameters '')"
  "find_element 3 (store trailing_space_document) = Some (section_heading 3 ''Query Parameters List'')"
  by (simp_all add: find_element_def trailing_space_document_def section_heading_def all_elements_def)

theorem exact_match_after_trim_witness:
  "well_formed trailing_space_document
   \<and> find_element 2 (store trailing_space_document) = Some (section_heading 2 ''Query Parameters '')
   \<and> find_element 3 (store trailing_space_document) = Some (section_heading 3 ''Query Parameters List'')
   \<and> (\<exists>d' e. heading_callback dom_host (Some 2) (trailing_space_document, 0) = Normal (d', 1)
           \<and> find_element 2 (store d') = Some e \<and> descendant_text e = replacement_text)
   \<and> heading_callback dom_host (Some 3) (trailing_space_document, 0) = Normal (trailing_space_document, 0)"
proof -
  have a: "trim (descendant_text (section_heading 2 ''Query Parameters '')) = target_text"
    by (simp add: section_heading_def trim_examples)
  have b: "trim (descendant_text (section_heading 3 ''Query Parameters List'')) \<noteq> target_text"
    by (simp add: section_heading_def trim_examples)
  from exact_match_after_trim[OF well_formed_trailing find_trailing(1), of 0] a
  have "\<exists>d' e. heading_callback dom_host (Some 2) (trailing_space_document, 0) = Normal (d', 1)
           \<and> find_element 2 (store d') = Some e \<and> descendant_text e = replacement_text"
    by simp
  moreover from exact_match_after_trim[OF well_formed_trailing find_trailing(2), of 0] b
  have "heading_callback dom_host (Some 3) (trailing_space_document, 0) = Normal (trailing_space_document, 0)"
    by blast
  ultimately show ?thesis using well_formed_trailing find_trailing by blast
qed

lemma pass_when_selection_throws:
  "querySelectorAll h d heading_selector = Inl e \<Longrightarrow>
   replaceQueryParameters h (d, con) = Normal (d, con @ [error_record e])"
  by (simp add: replaceQueryParameters_def try_block_def)

lemma pass_when_iteration_throws:
  "querySelectorAll h d heading_selector = Inr hs \<Longrightarrow>
   forEach (heading_callback h) hs (d, 0) = Throw e (d', k) \<Longrightarrow>
   replaceQueryParameters h (d, con) = Normal (d', con @ [error_record e])"
  by (simp add: replaceQueryParameters_def try_block_def)

lemma pass_when_iteration_returns:
  "querySelectorAll h d heading_selector = Inr hs \<Longrightarrow>
   forEach (heading_callback h) hs (d, 0) = Normal (d', k) \<Longrightarrow>
   replaceQueryParameters h (d, con) = Normal (d', con @ [count_record k])"
  by (simp add: replaceQueryParameters_def try_block_def)

lemma pass_one_record:
  "\<exists>d' r. replaceQueryParameters h (d, con) = Normal (d', con @ [r])"
proof (cases "querySelectorAll h d heading_selector")
  case (Inl e)
  from pass_when_selection_throws[OF this, of con] show ?thesis by (intro exI)
next
  case (Inr hs)
  show ?thesis
  proof (cases "forEach (heading_callback h) hs (d, 0)")
    case (Normal s)
    then obtain d' k where "forEach (heading_callback h) hs (d, 0) = Normal (d', k)"
      by (cases s) simp
    from pass_when_iteration_returns[OF Inr this, of con] show ?thesis by (intro exI)
  next
    case (Throw e s)
    then obtain d' k where "forEach (heading_callback h) hs (d, 0) = Throw e (d', k)"
      by (cases s) simp
    from pass_when_iteration_throws[OF Inr this, of con] show ?thesis by (intro exI)
  qed
qed

lemma forEach_throws_at:
  assumes "forEach f pre s = Normal s1" and "f x s1 = Throw e s2"
  shows "forEach f (pre @ x # post) s = Throw e s2"
  using assms by (simp add: forEach_append)

text \<open>
  C6. On any host, the function returns normally and appends exactly one record to the
  console. When \<^verbatim>\<open>querySelectorAll\<close> throws, or the iteration throws (as it does when the
  setter of \<^verbatim>\<open>textContent\<close> throws at a heading that passes the guard), that record is
  the error record with the exception, the document is as the exception left it, and the
  log record with the count is not written.
\<close>

theorem failure_boundary:
  "(\<exists>d' r. replaceQueryParameters h (d, con) = Normal (d', con @ [r]))
   \<and> (\<forall>e. querySelectorAll h d heading_selector = Inl e \<longrightarrow>
         replaceQueryParameters h (d, con) = Normal (d, con @ [error_record e]))
   \<and> (\<forall>hs e d' k. querySelectorAll h d heading_selector = Inr hs
         \<and> forEach (heading_callback h) hs (d, 0) = Throw e (d', k) \<longrightarrow>
         replaceQueryParameters h (d, con) = Normal (d', con @ [error_record e]))
   \<and> (\<forall>pre r post d1 k t e.
         querySelectorAll h d heading_selector = Inr (pre @ Some r # post)
         \<and> forEach (heading_callback h) pre (d, 0) = Normal (d1, k)
         \<and> get_textContent h d1 r = Inr (Some t) \<and> trim t = target_text
         \<and> set_textContent h d1 r replacement_text = Inl e \<longrightarrow>
         replaceQueryParameters h (d, con) = Normal (d1, con @ [error_record e]))
   \<and> (\<forall>e k. error_record e \<noteq> count_record k)"
proof -
  have 4: "\<forall>pre r post d1 k t e.
         querySelectorAll h d heading_selector = Inr (pre @ Some r # post)
         \<and> forEach (heading_callback h) pre (d, 0) = Normal (d1, k)
         \<and> get_textContent h d1 r = Inr (Some t) \<and> trim t = target_text
         \<and> set_textContent h d1 r replacement_text = Inl e \<longrightarrow>
         replaceQueryParameters h (d, con) = Normal (d1, con @ [error_record e])"
  proof (intro allI impI, elim conjE)
    fix pre r post d1 k t e
    assume q: "querySelectorAll h d heading_selector = Inr (pre @ Some r # post)"
      and pre: "forEach (heading_callback h) pre (d, 0) = Normal (d1, k)"
      and g: "get_textContent h d1 r = Inr (Some t)" "trim t = target_text"
      and s: "set_textContent h d1 r replacement_text = Inl e"
    from g s have "heading_callback h (Some r) (d1, k) = Throw e (d1, k)"
      by (rule heading_callback_throws_on_setter)
    with pre have "forEach (heading_callback h) (pre @ Some r # post) (d, 0) = Throw e (d1, k)"
      by (rule forEach_throws_at)
    with q show "replaceQueryParameters h (d, con) = Normal (d1, con @ [error_record e])"
      by (rule pass_when_iteration_throws)
  qed
  have 5: "\<forall>e k. error_record e \<noteq> count_record k"
    by (simp add: error_record_def count_record_def)
  have 1: "\<exists>d' r. replaceQueryParameters h (d, con) = Normal (d', con @ [r])"
    by (rule pass_one_record)
  have 2: "\<forall>e. querySelectorAll h d heading_selector = Inl e \<longrightarrow>
         replaceQueryParameters h (d, con) = Normal (d, con @ [error_record e])"
    by (simp add: pass_when_selection_throws)
  have 3: "\<forall>hs e d' k. querySelectorAll h d heading_selector = Inr hs
         \<and> forEach (heading_callback h) hs (d, 0) = Throw e (d', k) \<longrightarrow>
         replaceQueryParameters h (d, con) = Normal (d', con @ [error_record e])"
    by (simp add: pass_when_iteration_throws)
  from 1 2 3 4 5 show ?thesis by (intro conjI)
qed

lemma selection_fails:
  "querySelectorAll selection_failing_host scenario_document heading_selector = Inl SyntaxError"
  by (simp add: selection_failing_host_def)

lemma read_only_facts:
  "querySelectorAll read_only_host scenario_document heading_selector
     = Inr ([] @ Some 2 # [Some 3, Some 4])"
  "forEach (heading_callback read_only_host) [] (scenario_document, 0) = Normal (scenario_document, 0)"
  "get_textContent read_only_host scenario_document 2 = Inr (Some target_text)"
  "trim target_text = target_text"
  "set_textContent read_only_host scenario_document 2 replacement_text = Inl TypeError"
  by (simp_all add: read_only_host_def dom_host_def dom_querySelectorAll_def dom_get_textContent_def
      scenario_document_def section_heading_def all_elements_def find_element_def
      heading_selector_def target_text_def utf16_def trim_def is_white_space_def)

theorem failure_boundary_witness:
  "querySelectorAll selection_failing_host scenario_document heading_selector = Inl SyntaxError
   \<and> replaceQueryParameters selection_failing_host (scenario_document, [])
       = Normal (scenario_document, [error_record SyntaxError])
   \<and> set_textContent read_only_host scenario_document 2 replacement_text = Inl TypeError
   \<and> replaceQueryParameters read_only_host (scenario_document, [])
       = Normal (scenario_document, [error_record TypeError])"
proof -
  from failure_boundary[of selection_failing_host scenario_document "[]"] selection_fails
  have "replaceQueryParameters selection_failing_host (scenario_document, [])
       = Normal (scenario_document, [] @ [error_record SyntaxError])" by blast
  moreover from failure_boundary[of read_only_host scenario_document "[]"] read_only_facts
  have "replaceQueryParameters read_only_host (scenario_document, [])
       = Normal (scenario_document, [] @ [error_record TypeError])" by blast
  ultimately show ?thesis using selection_fails read_only_facts(5) by simp
qed

section \<open>The scheduling of the pass\<close>

lemma pass_console_independent:
  "\<exists>d' r. \<forall>con. replaceQueryParameters h (d, con) = Normal (d', con @ [r])"
proof (cases "querySelectorAll h d heading_selector")
  case (Inl e)
  have "\<forall>con. replaceQueryParameters h (d, con) = Normal (d, con @ [error_record e])"
    using pass_when_selection_throws[OF Inl] by simp
  then show ?thesis by (intro exI)
next
  case (Inr hs)
  show ?thesis
  proof (cases "forEach (heading_callback h) hs (d, 0)")
    case (Normal s)
    then obtain d' k where "forEach (heading_callback h) hs (d, 0) = Normal (d', k)"
      by (cases s) simp
    from pass_when_iteration_returns[OF Inr this]
    have "\<forall>con. replaceQueryParameters h (d, con) = Normal (d', con @ [count_record k])" by simp
    then show ?thesis by (intro exI)
  next
    case (Throw e s)
    then obtain d' k where "forEach (heading_callback h) hs (d, 0) = Throw e (d', k)"
      by (cases s) simp
    from pass_when_iteration_throws[OF Inr this]
    have "\<forall>con. replaceQueryParameters h (d, con) = Normal (d', con @ [error_record e])" by simp
    then show ?thesis by (intro exI)
  qed
qed

lemma call_returns:
  "\<exists>d' r. \<forall>p. page_dom p = d \<longrightarrow>
     call_replaceQueryParameters p
       = Normal (p\<lparr>page_dom := d', console_output := console_output p @ [r]\<rparr>)
     \<and> replaceQueryParameters dom_host (d, console_output p) = Normal (d', console_output p @ [r])"
proof -
  from pass_console_independent[of dom_host d] obtain d' r where
    "\<forall>con. replaceQueryParameters dom_host (d, con) = Normal (d', con @ [r])" by blast
  then have "\<forall>p. page_dom p = d \<longrightarrow>
     call_replaceQueryParameters p
       = Normal (p\<lparr>page_dom := d', console_output := console_output p @ [r]\<rparr>)
     \<and> replaceQueryParameters dom_host (d, console_output p) = Normal (d', console_output p @ [r])"
    by (simp add: call_replaceQueryParameters_def)
  then show ?thesis by (intro exI)
qed

lemma call_keeps_registrations:
  assumes "call_replaceQueryParameters p = Normal p'"
  shows "listeners p' = listeners p" "timers p' = timers p" "observed p' = observed p"
    "readyState p' = readyState p" "mutation_observer_defined p' = mutation_observer_defined p"
  using assms call_returns[of "page_dom p"] by auto

lemma run_callback_returns: "\<exists>p'. run_callback cb p = Normal p'"
  using call_returns[of "page_dom p"] by (cases cb) (auto split: option.splits)

lemma run_callback_timers: "run_callback cb p = Normal p' \<Longrightarrow> timers p' = timers p"
  by (cases cb) (auto simp: call_keeps_registrations observe_def split: option.splits)

lemma run_callback_observed:
  "run_callback cb p = Normal p' \<Longrightarrow> \<exists>rest. observed p' = observed p @ rest"
  by (cases cb) (auto simp: call_keeps_registrations observe_def split: option.splits)

lemma settle_run_timers: "timers (settle (run_callback cb p)) = timers p"
  using run_callback_returns[of cb p] run_callback_timers by fastforce

lemma settle_run_observed: "\<exists>rest. observed (settle (run_callback cb p)) = observed p @ rest"
  using run_callback_returns[of cb p] run_callback_observed by fastforce

lemma fire_timer_one_shot:
  "i < length (timers q) \<Longrightarrow> timers (fire_timer i q) = take i (timers q) @ drop (Suc i) (timers q)"
  by (simp add: fire_timer_def settle_run_timers)

lemma fire_timer_observed: "\<exists>rest. observed (fire_timer i q) = observed q @ rest"
proof (cases "i < length (timers q)")
  case True
  with settle_run_observed[of "fst (timers q ! i)" "q\<lparr>timers := take i (timers q) @ drop (Suc i) (timers q)\<rparr>"]
  show ?thesis by (simp add: fire_timer_def)
next
  case False then show ?thesis by (simp add: fire_timer_def)
qed

lemma deliver_mutations_observed: "\<exists>rest. observed (deliver_mutations q) = observed q @ rest"
  using settle_run_observed[of ObserverCallback q] by (simp add: deliver_mutations_def)

lemma fold_dispatch_observed:
  "\<exists>rest. observed (fold (\<lambda>l q. if fst l = tgt \<and> fst (snd l) = ty
                                 then settle (run_callback (snd (snd l)) q) else q) ls q)
      = observed q @ rest"
proof (induction ls arbitrary: q)
  case Nil then show ?case by simp
next
  case (Cons l ls)
  let ?q = "if fst l = tgt \<and> fst (snd l) = ty then settle (run_callback (snd (snd l)) q) else q"
  from settle_run_observed[of "snd (snd l)" q] obtain r1 where "observed ?q = observed q @ r1"
    by (cases "fst l = tgt \<and> fst (snd l) = ty") auto
  moreover from Cons.IH[of ?q] obtain r2 where
    "observed (fold (\<lambda>l q. if fst l = tgt \<and> fst (snd l) = ty
                                 then settle (run_callback (snd (snd l)) q) else q) ls ?q)
      = observed ?q @ r2" by blast
  ultimately show ?case by simp
qed

lemma dispatch_event_observed: "\<exists>rest. observed (dispatch_event tgt ty q) = observed q @ rest"
  unfolding dispatch_event_def by (rule fold_dispatch_observed)

lemma script_after_first_step:
  assumes "(if readyState p = Loading
            then Normal (addEventListener DocumentTarget (utf16 ''DOMContentLoaded'')
                           ReplaceQueryParameters p)
            else call_replaceQueryParameters p) = Normal p1"
  shows "script p = Normal (scheduled p1)"
  using assms
  by (cases "document_body (page_dom p1)")
     (simp_all add: script_def scheduled_def Let_def addEventListener_def setTimeout_def observe_def)

lemma script_returns:
  "\<exists>p1. (if readyState p = Loading
         then p1 = addEventListener DocumentTarget (utf16 ''DOMContentLoaded'') ReplaceQueryParameters p
         else call_replaceQueryParameters p = Normal p1)
      \<and> script p = Normal (scheduled p1)"
proof (cases "readyState p = Loading")
  case True
  with script_after_first_step[of p "addEventListener DocumentTarget (utf16 ''DOMContentLoaded'') ReplaceQueryParameters p"]
  show ?thesis by simp
next
  case False
  from call_returns[of "page_dom p"] obtain p1 where p1: "call_replaceQueryParameters p = Normal p1"
    by blast
  with False script_after_first_step[of p p1] show ?thesis by auto
qed

lemma find_map_preserved:
  "(\<And>x. P (f x) = P x) \<Longrightarrow> find P (map f xs) = map_option f (find P xs)"
  by (induction xs) auto

lemma is_element_rewrite [simp]: "is_element (rewrite S n) = is_element n"
  by (cases n) simp_all

lemma is_body_or_frameset_rewrite [simp]:
  "is_body_or_frameset (rewrite S n) = is_body_or_frameset n"
  by (cases n) simp_all

lemma body_of_html_rewrite:
  assumes "t \<noteq> utf16 ''html''"
    and "\<forall>r. node_ref n = Some r \<and> r \<in> S \<longrightarrow> matches (TypeAndClass t c) n"
  shows "body_of_html (rewrite S n) = body_of_html n"
proof (cases n)
  case (Element r tg cs ch)
  show ?thesis
  proof (cases "tg = utf16 ''html''")
    case True
    with assms Element have "r \<notin> S" by auto
    with Element show ?thesis
      by (cases "find is_body_or_frameset ch") (simp_all add: find_map_preserved)
  next
    case False
    with Element show ?thesis by simp
  qed
qed simp_all

lemma document_body_after_pass:
  assumes wf: "well_formed d"
    and d': "document d' = map (rewrite (replaced_refs (selected d))) (document d)"
  shows "document_body d' = document_body d"
proof (cases "find is_element (document d)")
  case None
  with d' show ?thesis by (simp add: document_body_def find_map_preserved)
next
  case (Some n)
  then have n: "n \<in> set (document d)" "is_element n" by (auto simp: find_Some_iff)
  from n(2) have "n \<in> set (elements n)" by (cases n) simp_all
  with n(1) have nd: "n \<in> set (all_elements (document d))"
    unfolding all_elements_member by blast
  have "body_of_html (rewrite (replaced_refs (selected d)) n) = body_of_html n"
  proof (rule body_of_html_rewrite[where t = "utf16 ''h4''" and c = "utf16 ''api-section-heading-title''"])
    show "utf16 ''h4'' \<noteq> utf16 ''html''" by (simp add: utf16_def)
    show "\<forall>r. node_ref n = Some r \<and> r \<in> replaced_refs (selected d) \<longrightarrow>
            matches (TypeAndClass (utf16 ''h4'') (utf16 ''api-section-heading-title'')) n"
      using replaced_refs_selected[OF wf nd] by (auto simp: heading_selector_def)
  qed
  with Some d' show ?thesis by (simp add: document_body_def find_map_preserved)
qed

lemma call_keeps_body:
  assumes "well_formed (page_dom p)" and "call_replaceQueryParameters p = Normal p1"
  shows "document_body (page_dom p1) = document_body (page_dom p)"
proof -
  from pass_dom[OF assms(1), of "console_output p"] obtain d' k where
    "replaceQueryParameters dom_host (page_dom p, console_output p)
       = Normal (d', console_output p @ [count_record k])"
    "document d' = map (rewrite (replaced_refs (selected (page_dom p)))) (document (page_dom p))"
    by blast
  with assms(2) document_body_after_pass[OF assms(1), of d'] show ?thesis
    by (auto simp: call_replaceQueryParameters_def)
qed

lemma fire_timer_runs_pass:
  "i < length (timers q) \<Longrightarrow> fst (timers q ! i) = ReplaceQueryParameters \<Longrightarrow>
   fire_timer i q
     = settle (call_replaceQueryParameters (q\<lparr>timers := take i (timers q) @ drop (Suc i) (timers q)\<rparr>))"
  by (simp add: fire_timer_def)

text \<open>
  C7. The top level of the script returns normally. It registers the pass as a listener
  of \<^verbatim>\<open>DOMContentLoaded\<close> on the document when \<^verbatim>\<open>readyState\<close> is \<^verbatim>\<open>loading\<close>, and otherwise
  runs the pass once, at once; in both cases it registers the pass as a listener of
  \<^verbatim>\<open>load\<close> on the window and sets exactly five timers for the pass, after 100, 300, 500,
  1000 and 2000 milliseconds. A timer that fires is removed from the pending timers, and a
  timer of the pass runs the pass when it fires.
\<close>

theorem scheduling_protocol:
  "\<exists>p'. script p = Normal p'
    \<and> listeners p' = listeners p
        @ (if readyState p = Loading
           then [(DocumentTarget, utf16 ''DOMContentLoaded'', ReplaceQueryParameters)] else [])
        @ [(WindowTarget, utf16 ''load'', ReplaceQueryParameters)]
    \<and> (if readyState p = Loading
       then page_dom p' = page_dom p \<and> console_output p' = console_output p
       else replaceQueryParameters dom_host (page_dom p, console_output p)
              = Normal (page_dom p', console_output p'))
    \<and> filter (\<lambda>t. fst t = ReplaceQueryParameters) (timers p')
        = filter (\<lambda>t. fst t = ReplaceQueryParameters) (timers p)
          @ [(ReplaceQueryParameters, 100), (ReplaceQueryParameters, 300),
             (ReplaceQueryParameters, 500), (ReplaceQueryParameters, 1000),
             (ReplaceQueryParameters, 2000)]
    \<and> (\<forall>i < length (timers p').
          timers (fire_timer i p') = take i (timers p') @ drop (Suc i) (timers p'))
    \<and> (\<forall>i < length (timers p'). fst (timers p' ! i) = ReplaceQueryParameters \<longrightarrow>
          fire_timer i p'
            = settle (call_replaceQueryParameters
                        (p'\<lparr>timers := take i (timers p') @ drop (Suc i) (timers p')\<rparr>)))"
proof -
  from script_returns[of p] obtain p1 where
    p1: "if readyState p = Loading
         then p1 = addEventListener DocumentTarget (utf16 ''DOMContentLoaded'') ReplaceQueryParameters p
         else call_replaceQueryParameters p = Normal p1"
    and s: "script p = Normal (scheduled p1)" by blast
  have l: "listeners (scheduled p1) = listeners p
        @ (if readyState p = Loading
           then [(DocumentTarget, utf16 ''DOMContentLoaded'', ReplaceQueryParameters)] else [])
        @ [(WindowTarget, utf16 ''load'', ReplaceQueryParameters)]"
    using p1 by (auto simp: scheduled_def addEventListener_def call_keeps_registrations split: if_splits)
  have d: "if readyState p = Loading
       then page_dom (scheduled p1) = page_dom p \<and> console_output (scheduled p1) = console_output p
       else replaceQueryParameters dom_host (page_dom p, console_output p)
              = Normal (page_dom (scheduled p1), console_output (scheduled p1))"
  proof (cases "readyState p = Loading")
    case True
    with p1 show ?thesis by (simp add: scheduled_def addEventListener_def)
  next
    case False
    with p1 have c: "call_replaceQueryParameters p = Normal p1" by simp
    with call_returns[of "page_dom p"] have
      "replaceQueryParameters dom_host (page_dom p, console_output p)
         = Normal (page_dom p1, console_output p1)" by auto
    with False show ?thesis by (simp add: scheduled_def)
  qed
  have "timers p1 = timers p"
    using p1 by (auto simp: addEventListener_def call_keeps_registrations split: if_splits)
  then have t: "filter (\<lambda>t. fst t = ReplaceQueryParameters) (timers (scheduled p1))
        = filter (\<lambda>t. fst t = ReplaceQueryParameters) (timers p)
          @ [(ReplaceQueryParameters, 100), (ReplaceQueryParameters, 300),
             (ReplaceQueryParameters, 500), (ReplaceQueryParameters, 1000),
             (ReplaceQueryParameters, 2000)]"
    by (simp add: scheduled_def)
  from s l d t fire_timer_one_shot fire_timer_runs_pass show ?thesis by blast
qed

lemma script_loading_page:
  "script loading_page =
     Normal (loading_page\<lparr>
       listeners := [(DocumentTarget, utf16 ''DOMContentLoaded'', ReplaceQueryParameters),
                     (WindowTarget, utf16 ''load'', ReplaceQueryParameters)],
       timers := [(ReplaceQueryParameters, 100), (ReplaceQueryParameters, 300),
                  (ReplaceQueryParameters, 500), (ReplaceQueryParameters, 1000),
                  (ReplaceQueryParameters, 2000), (BodyCheck, 100)]\<rparr>)"
  by (simp add: script_def loading_page_def Let_def addEventListener_def setTimeout_def
      document_body_def)

theorem scheduling_protocol_witness:
  "\<exists>p'. script loading_page = Normal p'
     \<and> listeners p' = [(DocumentTarget, utf16 ''DOMContentLoaded'', ReplaceQueryParameters),
                       (WindowTarget, utf16 ''load'', ReplaceQueryParameters)]
     \<and> 0 < length (timers p')
     \<and> timers (fire_timer 0 p') = take 0 (timers p') @ drop (Suc 0) (timers p')"
proof -
  from scheduling_protocol[of loading_page] obtain p' where p':
    "script loading_page = Normal p'"
    "listeners p' = listeners loading_page
        @ (if readyState loading_page = Loading
           then [(DocumentTarget, utf16 ''DOMContentLoaded'', ReplaceQueryParameters)] else [])
        @ [(WindowTarget, utf16 ''load'', ReplaceQueryParameters)]"
    "\<forall>i < length (timers p').
          timers (fire_timer i p') = take i (timers p') @ drop (Suc i) (timers p')"
    by blast
  from p'(1) have len: "0 < length (timers p')" by (auto simp: script_loading_page)
  with p'(3) have "timers (fire_timer 0 p') = take 0 (timers p') @ drop (Suc 0) (timers p')"
    by blast
  moreover from p'(2) have "listeners p' = [(DocumentTarget, utf16 ''DOMContentLoaded'', ReplaceQueryParameters),
                       (WindowTarget, utf16 ''load'', ReplaceQueryParameters)]"
    by (simp add: loading_page_def)
  ultimately show ?thesis using p'(1) len by blast
qed

lemma body_check_callback:
  "run_callback BodyCheck q
     = Normal (case document_body (page_dom q) of
                 Some b \<Rightarrow> q\<lparr>observed := observed q @ [(b, True, True)]\<rparr>
               | None \<Rightarrow> q)"
  by (simp add: observe_def split: option.splits)

lemma deliver_mutations_runs_pass:
  "observed q \<noteq> [] \<Longrightarrow> deliver_mutations q = settle (call_replaceQueryParameters q)"
  by (simp add: deliver_mutations_def)

text \<open>
  C8. When \<^verbatim>\<open>MutationObserver\<close> is defined, the script observes the body (child list and
  subtree) if the document has one when the script is evaluated, and otherwise sets one
  timer of 100 milliseconds for the check of the body; when it is not defined the script
  observes nothing and sets no such timer. The check observes the body if there is one
  then, and sets no further timer. A batch of mutations delivered to an observer that
  observes a node runs the pass, and no task of the page removes an observation. The pass
  that the script may run at once does not change which element is the body.
\<close>

theorem observer_attachment:
  "\<exists>p'. script p = Normal p'
    \<and> observed p' = observed p
        @ (if mutation_observer_defined p
           then (case document_body (page_dom p') of Some b \<Rightarrow> [(b, True, True)] | None \<Rightarrow> [])
           else [])
    \<and> filter (\<lambda>t. fst t = BodyCheck) (timers p')
        = filter (\<lambda>t. fst t = BodyCheck) (timers p)
          @ (if mutation_observer_defined p \<and> document_body (page_dom p') = None
             then [(BodyCheck, 100)] else [])
    \<and> (well_formed (page_dom p) \<longrightarrow> document_body (page_dom p') = document_body (page_dom p))
    \<and> (\<forall>q. run_callback BodyCheck q
              = Normal (case document_body (page_dom q) of
                          Some b \<Rightarrow> q\<lparr>observed := observed q @ [(b, True, True)]\<rparr>
                        | None \<Rightarrow> q))
    \<and> (\<forall>q. observed q \<noteq> [] \<longrightarrow> deliver_mutations q = settle (call_replaceQueryParameters q))
    \<and> (\<forall>q i. \<exists>rest. observed (fire_timer i q) = observed q @ rest)
    \<and> (\<forall>q tgt ty. \<exists>rest. observed (dispatch_event tgt ty q) = observed q @ rest)
    \<and> (\<forall>q. \<exists>rest. observed (deliver_mutations q) = observed q @ rest)"
proof -
  from script_returns[of p] obtain p1 where
    p1: "if readyState p = Loading
         then p1 = addEventListener DocumentTarget (utf16 ''DOMContentLoaded'') ReplaceQueryParameters p
         else call_replaceQueryParameters p = Normal p1"
    and s: "script p = Normal (scheduled p1)" by blast
  have same: "observed p1 = observed p" "timers p1 = timers p"
    "mutation_observer_defined p1 = mutation_observer_defined p"
    using p1 by (auto simp: addEventListener_def call_keeps_registrations split: if_splits)
  have dom: "page_dom (scheduled p1) = page_dom p1" by (simp add: scheduled_def)
  have o: "observed (scheduled p1) = observed p
        @ (if mutation_observer_defined p
           then (case document_body (page_dom (scheduled p1)) of
                   Some b \<Rightarrow> [(b, True, True)] | None \<Rightarrow> [])
           else [])"
    unfolding dom using same by (simp add: scheduled_def)
  have t: "filter (\<lambda>t. fst t = BodyCheck) (timers (scheduled p1))
        = filter (\<lambda>t. fst t = BodyCheck) (timers p)
          @ (if mutation_observer_defined p \<and> document_body (page_dom (scheduled p1)) = None
             then [(BodyCheck, 100)] else [])"
    unfolding dom using same by (simp add: scheduled_def)
  have b: "well_formed (page_dom p) \<longrightarrow>
            document_body (page_dom (scheduled p1)) = document_body (page_dom p)"
  proof (cases "readyState p = Loading")
    case True
    with p1 show ?thesis by (simp add: scheduled_def addEventListener_def)
  next
    case False
    with p1 have "call_replaceQueryParameters p = Normal p1" by simp
    then show ?thesis unfolding dom using call_keeps_body by blast
  qed
  from s o t b body_check_callback deliver_mutations_runs_pass fire_timer_observed
    dispatch_event_observed deliver_mutations_observed
  show ?thesis by blast
qed

lemma well_formed_complete_page: "well_formed (page_dom complete_page)"
  by (simp add: complete_page_def well_formed_scenario)

lemma body_complete_page: "document_body (page_dom complete_page) = Some 1"
  by (simp add: complete_page_def scenario_document_def document_body_def section_heading_def utf16_def)

theorem observer_attachment_witness:
  "well_formed (page_dom complete_page)
   \<and> (\<exists>p'. script complete_page = Normal p' \<and> observed p' = [(1, True, True)]
         \<and> deliver_mutations p' = settle (call_replaceQueryParameters p'))"
proof -
  from observer_attachment[of complete_page] obtain p' where p':
    "script complete_page = Normal p'"
    "observed p' = observed complete_page
        @ (if mutation_observer_defined complete_page
           then (case document_body (page_dom p') of Some b \<Rightarrow> [(b, True, True)] | None \<Rightarrow> [])
           else [])"
    "well_formed (page_dom complete_page) \<longrightarrow>
       document_body (page_dom p') = document_body (page_dom complete_page)"
    "\<forall>q. observed q \<noteq> [] \<longrightarrow> deliver_mutations q = settle (call_replaceQueryParameters q)"
    by blast
  from p'(3) well_formed_complete_page body_complete_page
  have "document_body (page_dom p') = Some 1" by simp
  with p'(2) have o: "observed p' = [(1, True, True)]" by (simp add: complete_page_def)
  with p'(4) have "deliver_mutations p' = settle (call_replaceQueryParameters p')" by simp
  with p'(1) o well_formed_complete_page show ?thesis by blast
qed

section \<open>The scenario of three headings\<close>

lemma text_of_descendant:
  "e \<in> set (elements t) \<Longrightarrow> \<exists>x y. descendant_text t = x @ descendant_text e @ y"
proof (induction t)
  case (Element i tg cs ch)
  show ?case
  proof (cases "e = Element i tg cs ch")
    case True
    then have "descendant_text (Element i tg cs ch) = [] @ descendant_text e @ []" by simp
    then show ?thesis by blast
  next
    case False
    with Element.prems obtain c where c: "c \<in> set ch" "e \<in> set (elements c)" by auto
    with Element.IH obtain x y where xy: "descendant_text c = x @ descendant_text e @ y" by blast
    from c(1) obtain l r where "ch = l @ c # r" by (auto dest: split_list)
    with xy have "descendant_text (Element i tg cs ch)
        = (concat (map descendant_text l) @ x) @ descendant_text e @ (y @ concat (map descendant_text r))"
      by simp
    then show ?thesis by blast
  qed
qed simp_all

lemma segment_of_descendant:
  "e \<in> set (elements t) \<Longrightarrow> \<exists>pre post. elements t = pre @ elements e @ post"
proof (induction t)
  case (Element i tg cs ch)
  show ?case
  proof (cases "e = Element i tg cs ch")
    case True
    then have "elements (Element i tg cs ch) = [] @ elements e @ []" by simp
    then show ?thesis by blast
  next
    case False
    with Element.prems obtain c where c: "c \<in> set ch" "e \<in> set (elements c)" by auto
    with Element.IH obtain x y where xy: "elements c = x @ elements e @ y" by blast
    from c(1) obtain l r where "ch = l @ c # r" by (auto dest: split_list)
    with xy have "elements (Element i tg cs ch)
        = (Element i tg cs ch # concat (map elements l) @ x) @ elements e @ (y @ concat (map elements r))"
      by simp
    then show ?thesis by blast
  qed
qed simp_all

lemma segment_of_element:
  assumes "e \<in> set (all_elements ns)"
  shows "\<exists>pre post. all_elements ns = pre @ elements e @ post"
proof -
  from assms obtain t where t: "t \<in> set ns" "e \<in> set (elements t)"
    by (auto simp: all_elements_member)
  from segment_of_descendant[OF t(2)] obtain x y where xy: "elements t = x @ elements e @ y"
    by blast
  from t(1) obtain l r where "ns = l @ t # r" by (auto dest: split_list)
  with xy have "all_elements ns = (all_elements l @ x) @ elements e @ (y @ all_elements r)"
    by simp
  then show ?thesis by blast
qed

lemma elements_unfold:
  "node_ref e \<noteq> None \<Longrightarrow> elements e = e # all_elements (child_nodes e)"
  by (cases e) (simp_all add: all_elements_def)

lemma distinct_subtree:
  assumes "distinct (map node_ref (all_elements ns))" and "e \<in> set (all_elements ns)"
  shows "distinct (map node_ref (elements e))"
proof -
  from segment_of_element[OF assms(2)] obtain pre post where
    "all_elements ns = pre @ elements e @ post" by blast
  with assms(1) show ?thesis by simp
qed

lemma middle_of_three:
  assumes "distinct [a, b, c]" and "[a, b, c] = P @ M @ Q" and "a \<in> set M" and "c \<in> set M"
  shows "b \<in> set M"
proof -
  have "P = []"
  proof (rule ccontr)
    assume "P \<noteq> []"
    with assms(2) have "a \<in> set P" by (cases P) auto
    with assms(3) have "\<not> distinct (P @ M @ Q)" by auto
    with assms(1,2) show False by simp
  qed
  moreover have "Q = []"
  proof (rule ccontr)
    assume "Q \<noteq> []"
    then obtain Q' q where Q: "Q = Q' @ [q]" by (cases Q rule: rev_cases) auto
    with assms(2) have "[a, b, c] = (P @ M @ Q') @ [q]" by simp
    then have "q = c" by (metis last.simps last_snoc list.distinct(1))
    with Q have "c \<in> set Q" by simp
    with assms(4) have "\<not> distinct (P @ M @ Q)" by auto
    with assms(1,2) show False by simp
  qed
  ultimately have "M = [a, b, c]" using assms(2) by simp
  then show ?thesis by simp
qed

lemma target_without_responses: "target_text \<noteq> x @ utf16 ''Responses'' @ y"
proof
  assume "target_text = x @ utf16 ''Responses'' @ y"
  then have "set target_text = set (x @ utf16 ''Responses'' @ y)" by (rule arg_cong)
  then have "set (utf16 ''Responses'') \<subseteq> set target_text" by auto
  then show False by (simp add: target_text_def utf16_def)
qed

lemma responses_without_target: "utf16 ''Responses'' \<noteq> x @ target_text @ y"
proof
  assume "utf16 ''Responses'' = x @ target_text @ y"
  then have "length (utf16 ''Responses'') = length (x @ target_text @ y)" by simp
  then show False by (simp add: target_text_def utf16_def)
qed

lemma three_headings_not_nested:
  assumes wf: "well_formed d" and sel: "selected d = [a, b, c]"
    and ta: "descendant_text a = target_text"
    and tb: "descendant_text b = utf16 ''Responses''"
    and tc: "descendant_text c = target_text"
  shows "headings_not_nested (document d)"
  unfolding headings_not_nested_def
proof (intro ballI impI notI)
  fix e e'
  assume e: "e \<in> set (all_elements (document d))" and me: "matches heading_selector e"
    and e': "e' \<in> set (all_elements (child_nodes e))" and me': "matches heading_selector e'"
  let ?m = "matches heading_selector"
  have dd: "distinct (map node_ref (all_elements (document d)))"
    using wf by (rule well_formed_document)
  from e have ne: "node_ref e \<noteq> None" by (rule all_elements_are_elements)
  then have ue: "elements e = e # all_elements (child_nodes e)" by (rule elements_unfold)
  with e' have e'e: "e' \<in> set (elements e)" by simp
  with e have e'd: "e' \<in> set (all_elements (document d))" using all_elements_trans by blast
  from e me e'd me' have "e \<in> set (selected d)" "e' \<in> set (selected d)"
    by (simp_all add: selected_def)
  with sel have es: "e \<in> {a, b, c}" "e' \<in> {a, b, c}" by simp_all
  from distinct_subtree[OF dd e] ue e' have "node_ref e \<noteq> node_ref e'" by auto
  then have neq: "e \<noteq> e'" by auto
  from text_of_descendant[OF e'e] obtain x y where
    cont: "descendant_text e = x @ descendant_text e' @ y" by blast
  have sorted: "outside a b" "outside a c" "outside b c"
    using selected_sorted[OF wf] sel by simp_all
  from sel have "a \<in> set (selected d)" "b \<in> set (selected d)" "c \<in> set (selected d)"
    by simp_all
  then have abc: "a \<in> set (all_elements (document d))" "b \<in> set (all_elements (document d))"
      "c \<in> set (all_elements (document d))" "?m a" "?m b" "?m c"
    by (simp_all add: selected_def)
  then have selfs: "a \<in> set (elements a)" "b \<in> set (elements b)" "c \<in> set (elements c)"
    using all_elements_are_elements elements_self by blast+
  from sorted selfs have dist: "distinct [a, b, c]" by auto
  have ac: False if "e = a" "e' = c"
  proof -
    from segment_of_element[OF abc(1)] obtain pre post where
      seg: "all_elements (document d) = pre @ elements a @ post" by blast
    with sel have "[a, b, c] = filter ?m pre @ filter ?m (elements a) @ filter ?m post"
      by (simp add: selected_def)
    moreover from selfs(1) abc(4) have "a \<in> set (filter ?m (elements a))" by simp
    moreover from e'e that abc(6) have "c \<in> set (filter ?m (elements a))" by simp
    ultimately have "b \<in> set (filter ?m (elements a))" using dist by (metis middle_of_three)
    then have "b \<in> set (elements a)" by simp
    from text_of_descendant[OF this] ta tb show False
      using target_without_responses by metis
  qed
  have ca: False if "e = c" "e' = a"
    using e'e sorted(2) that by auto
  have qr: False if "descendant_text e = target_text" "descendant_text e' = utf16 ''Responses''"
    using cont that target_without_responses[of x y] by simp
  have rq: False if "descendant_text e = utf16 ''Responses''" "descendant_text e' = target_text"
    using cont that responses_without_target[of x y] by simp
  from es(1) show False
  proof (elim insertE emptyE)
    assume ea: "e = a"
    with es(2) neq have "e' = b \<or> e' = c" by auto
    then show False
    proof
      assume "e' = b"
      with ea ta tb qr show False by simp
    next
      assume "e' = c"
      with ea ac show False by simp
    qed
  next
    assume eb: "e = b"
    with es(2) neq have "e' = a \<or> e' = c" by auto
    with eb ta tb tc rq show False by auto
  next
    assume ec: "e = c"
    with es(2) neq have "e' = a \<or> e' = b" by auto
    then show False
    proof
      assume "e' = a"
      with ec ca show False by simp
    next
      assume "e' = b"
      with ec tc tb qr show False by simp
    qed
  qed
qed

lemma selected_rewrite_forest:
  assumes "\<And>c. c \<in> set ch \<Longrightarrow>
      filter (matches sel) (elements (rewrite S c)) = map (rewrite S) (filter (matches sel) (elements c))"
  shows "filter (matches sel) (all_elements (map (rewrite S) ch))
       = map (rewrite S) (filter (matches sel) (all_elements ch))"
  using assms by (induction ch) simp_all

lemma selected_rewrite_tree:
  assumes "\<forall>e \<in> set (elements t). matches sel e \<longrightarrow>
             (\<forall>e' \<in> set (all_elements (child_nodes e)). \<not> matches sel e')"
    and "\<forall>e \<in> set (elements t). \<forall>r. node_ref e = Some r \<and> r \<in> S \<longrightarrow> matches sel e"
  shows "filter (matches sel) (elements (rewrite S t))
       = map (rewrite S) (filter (matches sel) (elements t))"
  using assms
proof (induction t)
  case (Element i tg cs ch)
  let ?t = "Element i tg cs ch"
  show ?case
  proof (cases "i \<in> S")
    case True
    with Element.prems(2) have m: "matches sel ?t" by simp
    with Element.prems(1) have "\<forall>e' \<in> set (all_elements ch). \<not> matches sel e'" by simp
    then have "filter (matches sel) (all_elements ch) = []" by (simp add: filter_empty_conv)
    moreover from m have "matches sel (Element i tg cs [Text replacement_text])"
      by (cases sel) simp
    ultimately show ?thesis using True m by (simp add: all_elements_def)
  next
    case False
    have "filter (matches sel) (all_elements (map (rewrite S) ch))
       = map (rewrite S) (filter (matches sel) (all_elements ch))"
    proof (rule selected_rewrite_forest)
      fix c assume c: "c \<in> set ch"
      then have sub: "set (elements c) \<subseteq> set (elements ?t)" by auto
      from sub Element.prems(1) have 1: "\<forall>e \<in> set (elements c). matches sel e \<longrightarrow>
             (\<forall>e' \<in> set (all_elements (child_nodes e)). \<not> matches sel e')" by blast
      from sub Element.prems(2) have 2:
        "\<forall>e \<in> set (elements c). \<forall>r. node_ref e = Some r \<and> r \<in> S \<longrightarrow> matches sel e" by blast
      from Element.IH[OF c 1 2]
      show "filter (matches sel) (elements (rewrite S c))
          = map (rewrite S) (filter (matches sel) (elements c))" .
    qed
    moreover have "matches sel (Element i tg cs (map (rewrite S) ch)) = matches sel ?t"
      by (cases sel) simp
    ultimately show ?thesis using False by (simp add: all_elements_def)
  qed
qed simp_all

lemma selected_after_pass:
  assumes wf: "well_formed d" and flat: "headings_not_nested (document d)"
    and d': "document d' = map (rewrite (replaced_refs (selected d))) (document d)"
  shows "selected d' = map (rewrite (replaced_refs (selected d))) (selected d)"
proof -
  let ?S = "replaced_refs (selected d)"
  have "filter (matches heading_selector) (all_elements (map (rewrite ?S) (document d)))
      = map (rewrite ?S) (filter (matches heading_selector) (all_elements (document d)))"
  proof (rule selected_rewrite_forest)
    fix t assume t: "t \<in> set (document d)"
    then have sub: "set (elements t) \<subseteq> set (all_elements (document d))"
      by (auto simp: all_elements_member)
    show "filter (matches heading_selector) (elements (rewrite ?S t))
        = map (rewrite ?S) (filter (matches heading_selector) (elements t))"
    proof (rule selected_rewrite_tree)
      show "\<forall>e \<in> set (elements t). matches heading_selector e \<longrightarrow>
               (\<forall>e' \<in> set (all_elements (child_nodes e)). \<not> matches heading_selector e')"
        using flat sub unfolding headings_not_nested_def by blast
      show "\<forall>e \<in> set (elements t). \<forall>r. node_ref e = Some r \<and> r \<in> ?S
               \<longrightarrow> matches heading_selector e"
        using replaced_refs_selected[OF wf] sub by blast
    qed
  qed
  with d' show ?thesis by (simp add: selected_def)
qed

lemma text_after_flat_pass:
  assumes wf: "well_formed d" and flat: "headings_not_nested (document d)"
    and n: "n \<in> set (selected d)"
  shows "descendant_text (rewrite (replaced_refs (selected d)) n)
       = (if has_target_text n then replacement_text else descendant_text n)"
proof -
  let ?S = "replaced_refs (selected d)"
  from n have nd: "n \<in> set (all_elements (document d))" and m: "matches heading_selector n"
    by (simp_all add: selected_def)
  from nd obtain r where r: "node_ref n = Some r" using all_elements_are_elements by blast
  show ?thesis
  proof (cases "has_target_text n")
    case True
    with m nd r wf have "r \<in> ?S" by (simp add: replaced_refs_selected)
    with r True show ?thesis by (simp add: rewrite_hit)
  next
    case False
    have "\<forall>x \<in> set (elements n). \<forall>q. node_ref x = Some q \<longrightarrow> q \<notin> ?S"
    proof (intro ballI allI impI)
      fix x q assume x: "x \<in> set (elements n)" "node_ref x = Some q"
      from x(1) nd have xd: "x \<in> set (all_elements (document d))"
        using all_elements_trans by blast
      show "q \<notin> ?S"
      proof (cases "x = n")
        case True
        with False xd x(2) wf show ?thesis by (simp add: replaced_refs_selected)
      next
        case ne: False
        with x(1) have "x \<in> set (all_elements (child_nodes n))"
          by (cases n) (auto simp: all_elements_def)
        with flat nd m have "\<not> matches heading_selector x"
          by (auto simp: headings_not_nested_def)
        with xd x(2) wf show ?thesis by (simp add: replaced_refs_selected)
      qed
    qed
    then have "rewrite ?S n = n" by (rule rewrite_absent)
    with False show ?thesis by simp
  qed
qed

text \<open>
  C4. On every well-formed document whose elements matching the selector are exactly three,
  with the texts \<^verbatim>\<open>Query Parameters\<close>, \<^verbatim>\<open>Responses\<close>, \<^verbatim>\<open>Query Parameters\<close> in tree order, one
  pass returns normally, appends one record to the console, the log record with the count
  2, and leaves three matching elements with the texts \<^verbatim>\<open>Parameters\<close>, \<^verbatim>\<open>Responses\<close>,
  \<^verbatim>\<open>Parameters\<close>. (With these texts no heading can lie inside another.)
\<close>

theorem three_headings:
  assumes "well_formed d"
    and "map descendant_text (filter (matches heading_selector) (all_elements (document d)))
           = [utf16 ''Query Parameters'', utf16 ''Responses'', utf16 ''Query Parameters'']"
  shows "\<exists>d'. replaceQueryParameters dom_host (d, con) = Normal (d', con @ [count_record 2])
      \<and> map descendant_text (filter (matches heading_selector) (all_elements (document d')))
          = [utf16 ''Parameters'', utf16 ''Responses'', utf16 ''Parameters'']"
proof -
  from assms(2) obtain a b c where sel: "selected d = [a, b, c]"
    and t: "descendant_text a = target_text" "descendant_text b = utf16 ''Responses''"
      "descendant_text c = target_text"
    by (auto simp: selected_def target_text_def)
  from three_headings_not_nested[OF assms(1) sel t]
  have flat: "headings_not_nested (document d)" .
  have h: "has_target_text a" "\<not> has_target_text b" "has_target_text c"
    using t by (simp_all add: has_target_text_def target_text_def utf16_def trim_def is_white_space_def)
  from pass_dom[OF assms(1), of con] obtain d' where d':
    "replaceQueryParameters dom_host (d, con)
        = Normal (d', con @ [count_record (length (filter has_target_text (selected d)))])"
    "document d' = map (rewrite (replaced_refs (selected d))) (document d)"
    by blast
  from d'(1) sel h have 1:
    "replaceQueryParameters dom_host (d, con) = Normal (d', con @ [count_record 2])"
    by (simp add: numeral_2_eq_2)
  from selected_after_pass[OF assms(1) flat d'(2)] sel
  have "selected d' = map (rewrite (replaced_refs (selected d))) [a, b, c]" by simp
  then have "map descendant_text (selected d')
       = [replacement_text, utf16 ''Responses'', replacement_text]"
    using text_after_flat_pass[OF assms(1) flat] sel h t by simp
  then have 2: "map descendant_text (filter (matches heading_selector) (all_elements (document d')))
          = [utf16 ''Parameters'', utf16 ''Responses'', utf16 ''Parameters'']"
    by (simp add: selected_def replacement_text_def)
  from 1 2 show ?thesis by (intro exI[of _ d'] conjI)
qed

lemma scenario_texts:
  "map descendant_text (filter (matches heading_selector) (all_elements (document scenario_document)))
     = [utf16 ''Query Parameters'', utf16 ''Responses'', utf16 ''Query Parameters'']"
  by (simp add: scenario_document_def section_heading_def all_elements_def heading_selector_def
      utf16_def)

theorem three_headings_witness:
  "well_formed scenario_document
   \<and> map descendant_text (filter (matches heading_selector) (all_elements (document scenario_document)))
       = [utf16 ''Query Parameters'', utf16 ''Responses'', utf16 ''Query Parameters'']
   \<and> (\<exists>d'. replaceQueryParameters dom_host (scenario_document, []) = Normal (d', [] @ [count_record 2])
      \<and> map descendant_text (filter (matches heading_selector) (all_elements (document d')))
          = [utf16 ''Parameters'', utf16 ''Responses'', utf16 ''Parameters''])"
  using well_formed_scenario scenario_texts
    three_headings[OF well_formed_scenario scenario_texts, of "[]"] by (intro conjI)

end
